theory Spec2Isabelle
  imports Main
begin

section \<open>The OpenAPI client generator \<open>scripts/generate-auth-client.mjs\<close>\<close>

subsection \<open>Strings\<close>

text \<open>
  A JavaScript string is a sequence of UTF-16 code units. A code unit is modelled as a
  natural number (the numbers below 65536 are the code units; no definition depends on
  the bound), so that strings with units outside ASCII are covered. The regular
  expressions of the script have no \<open>u\<close> flag: they work unit by unit.
  \<open>str\<close> reads an ASCII literal as such a string.
\<close>

type_synonym jsstring = "nat list"

definition str :: "string \<Rightarrow> jsstring" where
  "str s = map of_char s"

text \<open>The character class \<open>[a-zA-Z0-9_]\<close>.\<close>

definition isWordChar :: "nat \<Rightarrow> bool" where
  "isWordChar c \<longleftrightarrow>
     (97 \<le> c \<and> c \<le> 122) \<or> (65 \<le> c \<and> c \<le> 90) \<or> (48 \<le> c \<and> c \<le> 57) \<or> c = 95"

definition isUnderscore :: "nat \<Rightarrow> bool" where
  "isUnderscore c \<longleftrightarrow> c = 95"

text \<open>
  The line terminators, which \<open>.\<close> does not match: line feed, carriage return,
  U+2028 and U+2029.
\<close>

definition isLineTerminator :: "nat \<Rightarrow> bool" where
  "isLineTerminator c \<longleftrightarrow> c = 10 \<or> c = 13 \<or> c = 8232 \<or> c = 8233"

text \<open>
  \<open>toUpperCase\<close> and \<open>toLowerCase\<close>. On a string of ASCII units they change the
  letters and nothing else. What they do to a string with a unit outside ASCII (the
  Unicode case conversion, which may change the length and may produce ASCII letters) is
  left open: it is the parameter \<open>conv\<close>, and every theorem holds for each \<open>conv\<close>.
\<close>

definition isAscii :: "nat \<Rightarrow> bool" where
  "isAscii c \<longleftrightarrow> c < 128"

definition asciiUpper :: "nat \<Rightarrow> nat" where
  "asciiUpper c = (if 97 \<le> c \<and> c \<le> 122 then c - 32 else c)"

definition asciiLower :: "nat \<Rightarrow> nat" where
  "asciiLower c = (if 65 \<le> c \<and> c \<le> 90 then c + 32 else c)"

definition toUpperCase :: "(jsstring \<Rightarrow> jsstring) \<Rightarrow> jsstring \<Rightarrow> jsstring" where
  "toUpperCase conv s = (if list_all isAscii s then map asciiUpper s else conv s)"

definition toLowerCase :: "(jsstring \<Rightarrow> jsstring) \<Rightarrow> jsstring \<Rightarrow> jsstring" where
  "toLowerCase conv s = (if list_all isAscii s then map asciiLower s else conv s)"

text \<open>\<open>parts.join(sep)\<close>.\<close>

fun join :: "jsstring \<Rightarrow> jsstring list \<Rightarrow> jsstring" where
  "join sep [] = []"
| "join sep [s] = s"
| "join sep (s # t # ts) = s @ sep @ join sep (t # ts)"

text \<open>
  \<open>s.split('/')\<close>: the pieces between the slashes, in order; a string without a slash
  (the empty string too) is its own single piece.
\<close>

fun splitSlash :: "jsstring \<Rightarrow> jsstring list" where
  "splitSlash [] = [[]]"
| "splitSlash (c # cs) =
     (if c = 47 then [] # splitSlash cs
      else (case splitSlash cs of
              [] \<Rightarrow> [[c]]
            | p # ps \<Rightarrow> (c # p) # ps))"

subsection \<open>\<open>toSafeName\<close>\<close>

text \<open>
  \<^verbatim>\<open>str.replace(/[^a-zA-Z0-9_]+/g, '_').replace(/^_+|_+$/g, '').replace(/_{2,}/g, '_')\<close>
  Three replacements, one after the other:
  each maximal run of units outside the class becomes one underscore;
  the underscores at the start and those at the end are deleted;
  each maximal run of two or more underscores becomes one underscore.
\<close>

function replaceUnsafeRuns :: "jsstring \<Rightarrow> jsstring" where
  "replaceUnsafeRuns [] = []"
| "replaceUnsafeRuns (c # cs) =
     (if isWordChar c then c # replaceUnsafeRuns cs
      else 95 # replaceUnsafeRuns (dropWhile (\<lambda>d. \<not> isWordChar d) cs))"
  by pat_completeness auto
termination
  by (relation "measure length") (auto simp: le_imp_less_Suc length_dropWhile_le)

definition trimUnderscores :: "jsstring \<Rightarrow> jsstring" where
  "trimUnderscores s = rev (dropWhile isUnderscore (rev (dropWhile isUnderscore s)))"

function collapseUnderscores :: "jsstring \<Rightarrow> jsstring" where
  "collapseUnderscores [] = []"
| "collapseUnderscores [c] = [c]"
| "collapseUnderscores (c # d # cs) =
     (if isUnderscore c \<and> isUnderscore d
      then 95 # collapseUnderscores (dropWhile isUnderscore cs)
      else c # collapseUnderscores (d # cs))"
  by pat_completeness auto
termination
  by (relation "measure length") (auto simp: le_imp_less_Suc le_SucI length_dropWhile_le)

definition toSafeName :: "jsstring \<Rightarrow> jsstring" where
  "toSafeName s = collapseUnderscores (trimUnderscores (replaceUnsafeRuns s))"

subsection \<open>The data model\<close>

text \<open>
  The document is the value \<open>JSON.parse\<close> returns, read as the script reads it.
  An optional field is an \<open>option\<close>; a field is truthy when it is present and not the
  empty string. \<open>tags\<close> is \<open>None\<close> for every value that is not an array (a missing
  field too). \<open>requestBody\<close> tells whether the field is truthy, which is all the
  script asks. The entries of \<open>parameters\<close> are objects.
  An object is the list of its keys and values in the order \<open>Object.entries\<close> and
  \<open>Object.keys\<close> give them; the keys of an object are distinct. The value under a key
  of a path item that is not a method name is never read.
\<close>

record parameter =
  name :: "jsstring option"
  paramIn :: "jsstring option"

record operation =
  operationId :: "jsstring option"
  tags :: "jsstring list option"
  summary :: "jsstring option"
  parameters :: "parameter list option"
  requestBody :: bool

type_synonym pathItem = "(jsstring \<times> operation) list"

record openapi =
  paths :: "(jsstring \<times> pathItem) list option"

text \<open>
  The calls of the file system: \<open>fsp.mkdir(p, { recursive: true })\<close> and
  \<open>fsp.writeFile(file, content, 'utf8')\<close>. The failures of a run: the error event of
  the request, \<^verbatim>\<open>new Error(`Failed to download spec: ${res.statusCode}`)\<close> with its
  status, the exception of \<open>JSON.parse\<close>, the \<open>TypeError\<close> of a call on \<open>undefined\<close>,
  and a rejected call of the file system.
\<close>

datatype fs_op = Mkdir jsstring | WriteFile jsstring jsstring

datatype error =
    FetchFailure
  | HttpStatusFailure nat
  | ParseFailure
  | TypeError
  | WriteFailure fs_op

subsection \<open>\<open>opFunctionName\<close>\<close>

text \<open>
  \<^verbatim>\<open>s.replace(/\{.*?\}/g, '')\<close>. At an opening brace the lazy \<open>.*?\<close> runs to the
  nearest closing brace, and fails at a line terminator or at the end of the string;
  then the brace stays and the scan goes on behind it. \<open>closeIndex cs\<close> is the number
  of units before that closing brace.
\<close>

fun closeIndex :: "jsstring \<Rightarrow> nat option" where
  "closeIndex [] = None"
| "closeIndex (c # cs) =
     (if c = 125 then Some 0
      else if isLineTerminator c then None
      else map_option Suc (closeIndex cs))"

fun stripPlaceholders :: "jsstring \<Rightarrow> jsstring" where
  "stripPlaceholders [] = []"
| "stripPlaceholders (c # cs) =
     (if c = 123
      then (case closeIndex cs of
              Some n \<Rightarrow> stripPlaceholders (drop (Suc n) cs)
            | None \<Rightarrow> c # stripPlaceholders cs)
      else c # stripPlaceholders cs)"

definition nonEmpty :: "jsstring \<Rightarrow> bool" where
  "nonEmpty s \<longleftrightarrow> s \<noteq> []"

definition pathFunctionName :: "jsstring \<Rightarrow> jsstring \<Rightarrow> jsstring" where
  "pathFunctionName pathKey method =
     (let fromPath =
            join (str ''_'')
              (filter nonEmpty (map stripPlaceholders (filter nonEmpty (splitSlash pathKey))));
          base = method @ str ''_'' @ (if nonEmpty fromPath then fromPath else str ''root'')
      in toSafeName base)"

definition opFunctionName :: "operation \<Rightarrow> jsstring \<Rightarrow> jsstring \<Rightarrow> jsstring" where
  "opFunctionName op pathKey method =
     (case operationId op of
        Some i \<Rightarrow> if nonEmpty i then toSafeName i else pathFunctionName pathKey method
      | None \<Rightarrow> pathFunctionName pathKey method)"

text \<open>
  The same derivation as the specification words it, written on its own, to be compared
  with the code. Splitting on the slash: the pieces are collected from left to right, a
  slash ends the piece in hand.
\<close>

fun splitFrom :: "jsstring \<Rightarrow> jsstring \<Rightarrow> jsstring list" where
  "splitFrom piece [] = [piece]"
| "splitFrom piece (c # cs) =
     (if c = 47 then piece # splitFrom [] cs else splitFrom (piece @ [c]) cs)"

definition spec_split :: "jsstring \<Rightarrow> jsstring list" where
  "spec_split s = splitFrom [] s"

text \<open>
  Deleting the placeholders: a placeholder is an opening brace, the units up to the
  nearest closing brace, and that brace. \<open>barred\<close> tells the units a placeholder cannot
  hold; an opening brace that no closing brace follows, or whose nearest closing brace is
  behind a barred unit, is no placeholder and stays.
\<close>

definition closes :: "(nat \<Rightarrow> bool) \<Rightarrow> jsstring \<Rightarrow> bool" where
  "closes barred cs \<longleftrightarrow>
     125 \<in> set cs \<and> \<not> list_ex barred (takeWhile (\<lambda>c. c \<noteq> 125) cs)"

fun spec_deletePlaceholders :: "(nat \<Rightarrow> bool) \<Rightarrow> jsstring \<Rightarrow> jsstring"
  and skipPlaceholder :: "(nat \<Rightarrow> bool) \<Rightarrow> jsstring \<Rightarrow> jsstring" where
  "spec_deletePlaceholders barred [] = []"
| "spec_deletePlaceholders barred (c # cs) =
     (if c = 123 \<and> closes barred cs then skipPlaceholder barred cs
      else c # spec_deletePlaceholders barred cs)"
| "skipPlaceholder barred [] = []"
| "skipPlaceholder barred (c # cs) =
     (if c = 125 then spec_deletePlaceholders barred cs else skipPlaceholder barred cs)"

text \<open>Joining with a separator: the separator goes before every part but the first.\<close>

definition spec_join :: "jsstring \<Rightarrow> jsstring list \<Rightarrow> jsstring" where
  "spec_join sep parts =
     (case parts of [] \<Rightarrow> [] | s # rest \<Rightarrow> s @ concat (map (\<lambda>t. sep @ t) rest))"

text \<open>
  Sanitizing, in the three steps of the specification: every run of units outside
  \<open>[A-Za-z0-9_]\<close> becomes one underscore (\<open>inRun\<close>: the unit before was outside the
  class, its underscore is written already); the underscores at both ends go; of
  underscores in a row only the last stays.
\<close>

fun spec_replaceRuns :: "bool \<Rightarrow> jsstring \<Rightarrow> jsstring" where
  "spec_replaceRuns inRun [] = []"
| "spec_replaceRuns inRun (c # cs) =
     (if isWordChar c then c # spec_replaceRuns False cs
      else if inRun then spec_replaceRuns True cs
      else 95 # spec_replaceRuns True cs)"

definition spec_strip :: "jsstring \<Rightarrow> jsstring" where
  "spec_strip s =
     foldr (\<lambda>c kept. if c = 95 \<and> kept = [] then [] else c # kept) (dropWhile (\<lambda>c. c = 95) s) []"

fun spec_collapse :: "jsstring \<Rightarrow> jsstring" where
  "spec_collapse [] = []"
| "spec_collapse [c] = [c]"
| "spec_collapse (c # d # cs) =
     (if c = 95 \<and> d = 95 then spec_collapse (d # cs) else c # spec_collapse (d # cs))"

definition spec_toIdentifier :: "jsstring \<Rightarrow> jsstring" where
  "spec_toIdentifier raw = spec_collapse (spec_strip (spec_replaceRuns False raw))"

text \<open>
  The name from the path: split, drop the empty segments, delete the placeholders, drop
  the segments left empty, join with an underscore behind \<open>method_\<close>, or take
  \<open>method_root\<close> when no segment survives; sanitize.
\<close>

definition spec_functionName :: "(nat \<Rightarrow> bool) \<Rightarrow> jsstring \<Rightarrow> jsstring \<Rightarrow> jsstring" where
  "spec_functionName barred pathKey method =
     (let segments = filter (\<lambda>s. s \<noteq> []) (spec_split pathKey);
          survivors = filter (\<lambda>s. s \<noteq> []) (map (spec_deletePlaceholders barred) segments)
      in spec_toIdentifier
           (if survivors = [] then method @ str ''_root''
            else method @ str ''_'' @ spec_join (str ''_'') survivors))"

text \<open>
  The claim reads every brace pair as a placeholder; the code, whose \<open>.\<close> matches no
  line terminator, reads a brace pair that holds a line terminator as plain text.
\<close>

definition claimed_functionName :: "jsstring \<Rightarrow> jsstring \<Rightarrow> jsstring" where
  "claimed_functionName pathKey method = spec_functionName (\<lambda>c. False) pathKey method"

definition amended_functionName :: "jsstring \<Rightarrow> jsstring \<Rightarrow> jsstring" where
  "amended_functionName pathKey method = spec_functionName isLineTerminator pathKey method"

subsection \<open>\<open>paramList\<close>\<close>

text \<open>
  \<open>names\<close> collects the truthy names in order; \<open>Array.from(new Set(names))\<close> keeps
  each at the place where it was first added (\<open>setAdd\<close> is \<open>Set.prototype.add\<close> on the
  elements in insertion order). The entries of a parameter array are objects, so the
  test \<open>!p\<close> holds for none of them.
\<close>

definition setAdd :: "'a list \<Rightarrow> 'a \<Rightarrow> 'a list" where
  "setAdd seen x = (if x \<in> set seen then seen else seen @ [x])"

definition paramNames :: "parameter list \<Rightarrow> jsstring list" where
  "paramNames params =
     List.map_filter
       (\<lambda>p. case name p of
               Some n \<Rightarrow> if nonEmpty n then Some n else None
             | None \<Rightarrow> None)
       params"

definition paramList :: "parameter list \<Rightarrow> jsstring list" where
  "paramList params = foldl setAdd [] (paramNames params)"



subsection \<open>\<open>buildPathTemplate\<close> and \<open>pickTags\<close>\<close>

text \<open>\<^verbatim>\<open>pathKey.replace(/\{(.*?)\}/g, '${pathParams.$1}')\<close>\<close>

fun buildPathTemplate :: "jsstring \<Rightarrow> jsstring" where
  "buildPathTemplate [] = []"
| "buildPathTemplate (c # cs) =
     (if c = 123
      then (case closeIndex cs of
              Some n \<Rightarrow>
                str ''${pathParams.'' @ take n cs @ str ''}'' @ buildPathTemplate (drop (Suc n) cs)
            | None \<Rightarrow> c # buildPathTemplate cs)
      else c # buildPathTemplate cs)"

text \<open>The entry \<^verbatim>\<open>{ ...op, method, pathKey, fnName }\<close>.\<close>

record indexedOperation = operation +
  "method" :: jsstring
  pathKey :: jsstring
  fnName :: jsstring

definition pickTags :: "operation \<Rightarrow> jsstring list" where
  "pickTags op =
     (case tags op of
        Some ts \<Rightarrow> if ts \<noteq> [] then ts else [str ''default'']
      | None \<Rightarrow> [str ''default''])"

subsection \<open>\<open>genApiModule\<close>\<close>

text \<open>
  The class name \<^verbatim>\<open>toSafeName(tag[0].toUpperCase() + tag.slice(1))\<close>, which
  \<open>genApiModule\<close> and \<open>main\<close> both compute. \<open>tag[0]\<close> of the empty string is
  \<open>undefined\<close>, and calling \<open>toUpperCase\<close> on it throws a \<open>TypeError\<close>.
\<close>

definition tagClassName :: "(jsstring \<Rightarrow> jsstring) \<Rightarrow> jsstring \<Rightarrow> error + jsstring" where
  "tagClassName upper t =
     (case t of
        [] \<Rightarrow> Inl TypeError
      | c # cs \<Rightarrow> Inr (toSafeName (toUpperCase upper [c] @ cs)))"

definition quote :: jsstring where
  "quote = [39]"

definition paramsIn :: "jsstring \<Rightarrow> 'a indexedOperation_scheme \<Rightarrow> jsstring list" where
  "paramsIn place op =
     paramList
       (filter (\<lambda>p. paramIn p = Some place)
          (case parameters op of Some ps \<Rightarrow> ps | None \<Rightarrow> []))"

definition methodArgs :: "'a indexedOperation_scheme \<Rightarrow> jsstring list" where
  "methodArgs op =
     (if paramsIn (str ''path'') op \<noteq> [] then [str ''pathParams''] else [])
     @ (if paramsIn (str ''query'') op \<noteq> [] then [str ''query''] else [])
     @ (if paramsIn (str ''header'') op \<noteq> [] then [str ''headers''] else [])
     @ (if requestBody op then [str ''body''] else [])"

text \<open>The lines that one turn of the loop over the operations adds.\<close>

definition methodLines :: "(jsstring \<Rightarrow> jsstring) \<Rightarrow> 'a indexedOperation_scheme \<Rightarrow> jsstring list" where
  "methodLines upper op =
     (let fn = fnName op;
          pathTmpl = buildPathTemplate (pathKey op);
          METHOD = toUpperCase upper (method op)
      in [str ''  /**'',
          str ''   * '' @ (case summary op of Some t \<Rightarrow> t | None \<Rightarrow> []),
          str ''   * '' @ METHOD @ str '' '' @ pathKey op,
          str ''   */'',
          str ''  async '' @ fn @ str ''('' @ join (str '', '') (methodArgs op) @ str '') {'',
          str ''    return this.http.request({'',
          str ''      path: `'' @ pathTmpl @ str ''`,'',
          str ''      method: '' @ quote @ METHOD @ quote @ str '','']
         @ (if paramsIn (str ''query'') op \<noteq> [] then [str ''      query: query,''] else [])
         @ (if paramsIn (str ''header'') op \<noteq> [] then [str ''      headers: headers,''] else [])
         @ (if requestBody op then [str ''      body: body,''] else [])
         @ [str ''    });'',
            str ''  }''])"

definition moduleLines ::
  "(jsstring \<Rightarrow> jsstring) \<Rightarrow> jsstring \<Rightarrow> 'a indexedOperation_scheme list \<Rightarrow> error + jsstring list" where
  "moduleLines upper t operations =
     (case tagClassName upper t of
        Inl e \<Rightarrow> Inl e
      | Inr className \<Rightarrow>
          Inr ([str ''// Auto-generated API for tag: '' @ t,
                str ''import { AuthHttpClient } from '' @ quote @ str ''./base.js'' @ quote @ str '';'',
                [],
                str ''export class '' @ className @ str ''Api {'',
                str ''  /** @param {AuthHttpClient} http */'',
                str ''  constructor(http) { this.http = http; }'']
               @ concat (map (methodLines upper) operations)
               @ [str ''}'',
                  [],
                  str ''export default '' @ className @ str ''Api;'']))"

definition genApiModule ::
  "(jsstring \<Rightarrow> jsstring) \<Rightarrow> jsstring \<Rightarrow> 'a indexedOperation_scheme list \<Rightarrow> error + jsstring" where
  "genApiModule upper t operations =
     (case moduleLines upper t operations of
        Inl e \<Rightarrow> Inl e
      | Inr lines \<Rightarrow> Inr (join [10] lines))"

subsection \<open>\<open>groupOperationsByTag\<close>\<close>

text \<open>
  The \<open>Map\<close> from a tag to its operations is the list of its entries in insertion
  order. \<open>pushEntry\<close> is
  \<^verbatim>\<open>if (!byTag.has(tag)) byTag.set(tag, []); byTag.get(tag).push(entry);\<close>
\<close>

type_synonym tagMap = "(jsstring \<times> indexedOperation list) list"

fun pushEntry :: "tagMap \<Rightarrow> jsstring \<Rightarrow> indexedOperation \<Rightarrow> tagMap" where
  "pushEntry [] t entry = [(t, [entry])]"
| "pushEntry ((k, es) # byTag) t entry =
     (if k = t then (k, es @ [entry]) # byTag else (k, es) # pushEntry byTag t entry)"

definition httpMethods :: "jsstring list" where
  "httpMethods =
     [str ''get'', str ''post'', str ''put'', str ''patch'', str ''delete'', str ''options'',
      str ''head'']"

definition indexed :: "operation \<Rightarrow> jsstring \<Rightarrow> jsstring \<Rightarrow> indexedOperation" where
  "indexed op pathKey' method' =
     \<lparr>operationId = operationId op, tags = tags op, summary = summary op,
      parameters = parameters op, requestBody = requestBody op,
      method = method', pathKey = pathKey', fnName = opFunctionName op pathKey' method'\<rparr>"

text \<open>One turn of the inner loop, for the key \<open>method'\<close> of a path item.\<close>

definition indexKey :: "jsstring \<Rightarrow> tagMap \<Rightarrow> jsstring \<times> operation \<Rightarrow> tagMap" where
  "indexKey pathKey' byTag kv =
     (case kv of (method', op) \<Rightarrow>
        if method' \<notin> set httpMethods then byTag
        else foldl (\<lambda>m t. pushEntry m t (indexed op pathKey' method')) byTag (pickTags op))"

definition groupOperationsByTag :: "openapi \<Rightarrow> tagMap" where
  "groupOperationsByTag doc =
     foldl (\<lambda>byTag (pathKey', item). foldl (indexKey pathKey') byTag item) []
       (case paths doc of Some ps \<Rightarrow> ps | None \<Rightarrow> [])"

subsection \<open>\<open>fetchJson\<close>\<close>

text \<open>
  What runs the script: the network (\<open>httpGet\<close>: the answer to a GET of a URL, or an
  error of the request), \<open>JSON.parse\<close> (\<open>None\<close> when it throws; the parsed body is read
  as a document), the case conversions of strings outside ASCII, and the file system
  (\<open>fsAccepts trace op\<close>: whether \<open>op\<close> succeeds after the operations \<open>trace\<close>).
\<close>

datatype response = NetworkError | Response nat "jsstring option" jsstring

record host =
  httpGet :: "jsstring \<Rightarrow> response"
  jsonParse :: "jsstring \<Rightarrow> openapi option"
  upperCase :: "jsstring \<Rightarrow> jsstring"
  lowerCase :: "jsstring \<Rightarrow> jsstring"
  fsAccepts :: "fs_op list \<Rightarrow> fs_op \<Rightarrow> bool"

text \<open>What the callback does with a response that is not a redirect.\<close>

definition readResponse :: "host \<Rightarrow> nat \<Rightarrow> jsstring \<Rightarrow> error + openapi" where
  "readResponse h status body =
     (if status \<noteq> 0 \<and> status \<ge> 400 then Inl (HttpStatusFailure status)
      else (case jsonParse h body of
              None \<Rightarrow> Inl ParseFailure
            | Some doc \<Rightarrow> Inr doc))"

text \<open>
  The promise \<open>fetchJson(url)\<close>: \<open>Some (Inr doc)\<close> when it resolves, \<open>Some (Inl e)\<close> when
  it rejects, \<open>None\<close> when the redirects never end and it stays pending.
\<close>

partial_function (option) fetchJson :: "host \<Rightarrow> jsstring \<Rightarrow> (error + openapi) option" where
  "fetchJson h url =
     (case httpGet h url of
        NetworkError \<Rightarrow> Some (Inl FetchFailure)
      | Response status location body \<Rightarrow>
          (case location of
             Some target \<Rightarrow>
               if status \<noteq> 0 \<and> status \<ge> 300 \<and> status < 400 \<and> nonEmpty target
               then fetchJson h target
               else Some (readResponse h status body)
           | None \<Rightarrow> Some (readResponse h status body)))"

declare fetchJson.simps [code]

subsection \<open>\<open>main\<close>\<close>

text \<open>
  A step of the run takes the file-system operations done so far and returns its result
  with the operations done after it; a step that fails ends the run, as the rejected
  \<open>await\<close> does. The lines written to the console are not part of the model.
\<close>

type_synonym 'a io = "fs_op list \<Rightarrow> (error + 'a) \<times> fs_op list"

definition succeed :: "'a \<Rightarrow> 'a io" where
  "succeed x trace = (Inr x, trace)"

definition failWith :: "error \<Rightarrow> 'a io" where
  "failWith e trace = (Inl e, trace)"

definition andThen :: "'a io \<Rightarrow> ('a \<Rightarrow> 'b io) \<Rightarrow> 'b io" where
  "andThen step next trace =
     (case step trace of
        (Inl e, trace') \<Rightarrow> (Inl e, trace')
      | (Inr x, trace') \<Rightarrow> next x trace')"

definition perform :: "host \<Rightarrow> fs_op \<Rightarrow> unit io" where
  "perform h op trace =
     (if fsAccepts h trace op then (Inr (), trace @ [op]) else (Inl (WriteFailure op), trace))"

definition ensureDir :: "host \<Rightarrow> jsstring \<Rightarrow> unit io" where
  "ensureDir h p = perform h (Mkdir p)"

text \<open>
  \<open>writeFile(path.join(dir, file), content)\<close>, for a directory \<open>dir\<close> as
  \<open>path.resolve\<close> gives it and a plain file name: the joined path is \<open>dir/file\<close>, and
  its \<open>path.dirname\<close> is \<open>dir\<close>.
\<close>

definition writeFile :: "host \<Rightarrow> jsstring \<Rightarrow> jsstring \<Rightarrow> jsstring \<Rightarrow> unit io" where
  "writeFile h dir file' content =
     andThen (ensureDir h dir) (\<lambda>_. perform h (WriteFile (dir @ str ''/'' @ file') content))"

text \<open>The file name \<^verbatim>\<open>`${toSafeName(tag.toLowerCase())}-api.js`\<close> of a tag.\<close>

definition tagFile :: "(jsstring \<Rightarrow> jsstring) \<Rightarrow> jsstring \<Rightarrow> jsstring" where
  "tagFile lower t = toSafeName (toLowerCase lower t) @ str ''-api.js''"

record exportEntry =
  tag :: jsstring
  fileName :: jsstring
  className :: jsstring

text \<open>The loop over \<open>grouped.entries()\<close>, with the array \<open>exports\<close> it fills.\<close>

fun emitModules :: "host \<Rightarrow> jsstring \<Rightarrow> tagMap \<Rightarrow> exportEntry list \<Rightarrow> exportEntry list io" where
  "emitModules h outDir [] exports = succeed exports"
| "emitModules h outDir ((t, ops) # grouped) exports =
     (case genApiModule (upperCase h) t ops of
        Inl e \<Rightarrow> failWith e
      | Inr text' \<Rightarrow>
          andThen (writeFile h outDir (tagFile (lowerCase h) t) text')
            (\<lambda>_. case tagClassName (upperCase h) t of
                    Inl e \<Rightarrow> failWith e
                  | Inr name' \<Rightarrow>
                      emitModules h outDir grouped
                        (exports @ [\<lparr>tag = t, fileName = tagFile (lowerCase h) t, className = name'\<rparr>])))"

definition indexLine :: "exportEntry \<Rightarrow> jsstring" where
  "indexLine e =
     str ''export { default as '' @ className e @ str ''Api } from '' @ quote @ str ''./''
     @ fileName e @ quote @ str '';''"

definition indexLines :: "exportEntry list \<Rightarrow> jsstring list" where
  "indexLines exports =
     map indexLine exports
     @ [str ''export * from '' @ quote @ str ''./base.js'' @ quote @ str '';'']"

text \<open>
  \<open>main\<close> behind the download: \<open>baseJs\<close> is the text \<open>genBaseJs()\<close> returns, a constant
  that is written as it is, and \<open>outDir\<close> the value of
  \<open>path.resolve('src/auth-client')\<close>.
\<close>

definition generate :: "host \<Rightarrow> jsstring \<Rightarrow> jsstring \<Rightarrow> openapi \<Rightarrow> unit io" where
  "generate h baseJs outDir spec =
     andThen (ensureDir h outDir) (\<lambda>_.
     andThen (writeFile h outDir (str ''base.js'') baseJs) (\<lambda>_.
     andThen (emitModules h outDir (groupOperationsByTag spec) []) (\<lambda>exports.
     writeFile h outDir (str ''index.js'') (join [10] (indexLines exports)))))"

definition DEFAULT_SPEC :: jsstring where
  "DEFAULT_SPEC = str ''https://auth.hvdhub.com/swagger/v1/swagger.json''"

text \<open>\<^verbatim>\<open>process.argv[2] || process.env.SPEC_URL || DEFAULT_SPEC\<close>\<close>

definition specUrl :: "jsstring option \<Rightarrow> jsstring option \<Rightarrow> jsstring" where
  "specUrl argv2 envUrl =
     (case argv2 of
        Some u \<Rightarrow> if nonEmpty u then u
                  else (case envUrl of Some v \<Rightarrow> if nonEmpty v then v else DEFAULT_SPEC
                        | None \<Rightarrow> DEFAULT_SPEC)
      | None \<Rightarrow> (case envUrl of Some v \<Rightarrow> if nonEmpty v then v else DEFAULT_SPEC
                 | None \<Rightarrow> DEFAULT_SPEC))"

text \<open>
  The run: its outcome and the file-system operations it did, in order; \<open>None\<close> when
  the download never ends.
\<close>

definition main ::
  "host \<Rightarrow> jsstring option \<Rightarrow> jsstring option \<Rightarrow> jsstring \<Rightarrow> jsstring
   \<Rightarrow> ((error + unit) \<times> fs_op list) option" where
  "main h argv2 envUrl baseJs outDir =
     (case fetchJson h (specUrl argv2 envUrl) of
        None \<Rightarrow> None
      | Some (Inl e) \<Rightarrow> Some (Inl e, [])
      | Some (Inr spec) \<Rightarrow> Some (generate h baseJs outDir spec []))"

subsection \<open>Auxiliary notions\<close>

text \<open>A string with two underscores in a row.\<close>

fun hasDouble :: "jsstring \<Rightarrow> bool" where
  "hasDouble (c # d # cs) = ((isUnderscore c \<and> isUnderscore d) \<or> hasDouble (d # cs))"
| "hasDouble _ = False"

text \<open>The test \<open>op.operationId\<close> of \<open>opFunctionName\<close> fails: the field is absent or empty.\<close>

definition noOperationId :: "operation \<Rightarrow> bool" where
  "noOperationId op \<longleftrightarrow> operationId op = None \<or> operationId op = Some []"


text \<open>Inputs for the examples: an operation with no field set, and a named parameter.\<close>

definition bareOperation :: operation where
  "bareOperation =
     \<lparr>operationId = None, tags = None, summary = None, parameters = None, requestBody = False\<rparr>"

definition param :: "string \<Rightarrow> string \<Rightarrow> parameter" where
  "param n place = \<lparr>name = Some (str n), paramIn = Some (str place)\<rparr>"

text \<open>
  The indexer, flattened: the pairs of a tag and an entry in the order in which the
  three loops of \<open>groupOperationsByTag\<close> meet them, and the bucket of a tag (empty for
  a tag that is no key of the map).
\<close>

definition pushPair :: "tagMap \<Rightarrow> jsstring \<times> indexedOperation \<Rightarrow> tagMap" where
  "pushPair byTag p = pushEntry byTag (fst p) (snd p)"

definition tagPairsOfKey :: "jsstring \<Rightarrow> jsstring \<times> operation \<Rightarrow> (jsstring \<times> indexedOperation) list" where
  "tagPairsOfKey pathKey' kv =
     (if fst kv \<notin> set httpMethods then []
      else map (\<lambda>t. (t, indexed (snd kv) pathKey' (fst kv))) (pickTags (snd kv)))"

definition tagPairsOfPath :: "jsstring \<times> pathItem \<Rightarrow> (jsstring \<times> indexedOperation) list" where
  "tagPairsOfPath entry = concat (map (tagPairsOfKey (fst entry)) (snd entry))"

definition tagPairs :: "openapi \<Rightarrow> (jsstring \<times> indexedOperation) list" where
  "tagPairs doc = concat (map tagPairsOfPath (case paths doc of Some ps \<Rightarrow> ps | None \<Rightarrow> []))"

definition bucket :: "tagMap \<Rightarrow> jsstring \<Rightarrow> indexedOperation list" where
  "bucket byTag t = (case map_of byTag t of Some es \<Rightarrow> es | None \<Rightarrow> [])"

text \<open>The keys of the path table are distinct, and so are those of each path item.\<close>

definition keysDistinct :: "openapi \<Rightarrow> bool" where
  "keysDistinct doc \<longleftrightarrow>
     (case paths doc of
        None \<Rightarrow> True
      | Some ps \<Rightarrow> distinct (map fst ps) \<and> list_all (\<lambda>entry. distinct (map fst (snd entry))) ps)"

text \<open>A pair of the flattened index belongs to tag \<open>t\<close> and to the operation at \<open>pk\<close>, \<open>m\<close>.\<close>

definition sameOp :: "jsstring \<Rightarrow> jsstring \<Rightarrow> jsstring \<Rightarrow> jsstring \<times> indexedOperation \<Rightarrow> bool" where
  "sameOp t pk m p \<longleftrightarrow> fst p = t \<and> pathKey (snd p) = pk \<and> method (snd p) = m"

text \<open>A document for the examples.\<close>

definition taggedOperation :: "string list \<Rightarrow> operation" where
  "taggedOperation ts = bareOperation\<lparr>tags := Some (map str ts)\<rparr>"

definition sampleDoc :: openapi where
  "sampleDoc =
     \<lparr>paths = Some
        [(str ''/users'',
            [(str ''parameters'', bareOperation),
             (str ''get'', taggedOperation [''a'', ''b'']),
             (str ''post'', taggedOperation [''b''])]),
         (str ''/'', [(str ''get'', taggedOperation [])])]\<rparr>"

text \<open>
  A response that \<open>fetchJson\<close> follows: a status from 300 to 399 with a truthy
  \<open>Location\<close> header.
\<close>

definition isRedirect :: "nat \<Rightarrow> jsstring option \<Rightarrow> bool" where
  "isRedirect status location \<longleftrightarrow>
     300 \<le> status \<and> status < 400 \<and> location \<noteq> None \<and> location \<noteq> Some []"

text \<open>A step of the run that fails whatever was done before it.\<close>

definition fails :: "'a io \<Rightarrow> bool" where
  "fails step \<longleftrightarrow> (\<forall>trace. \<exists>e trace'. step trace = (Inl e, trace'))"






text \<open>
  Hosts and documents for the examples: a host whose server answers 503 and whose file
  system accepts every operation; one whose server redirects the default URL to a mirror
  that sends a body which is no JSON; a document with the empty tag; one whose operation
  names the tag \<open>a\<close> twice; one with the tags \<open>Users\<close> and \<open>users\<close>, one with the
  tags \<open>ab\<close> and \<open>AB\<close>; a path with a line feed between two braces.
\<close>

definition plainHost :: host where
  "plainHost =
     \<lparr>httpGet = (\<lambda>url. Response 503 None []), jsonParse = (\<lambda>body. None),
      upperCase = (\<lambda>s. s), lowerCase = (\<lambda>s. s), fsAccepts = (\<lambda>trace op. True)\<rparr>"

definition redirectingHost :: host where
  "redirectingHost =
     plainHost\<lparr>httpGet := (\<lambda>url. if url = DEFAULT_SPEC then Response 302 (Some (str ''http://mirror/spec'')) []
                               else if url = str ''http://mirror/spec'' then Response 200 None (str ''{broken'')
                               else NetworkError)\<rparr>"

definition emptyTagDoc :: openapi where
  "emptyTagDoc = \<lparr>paths = Some [(str ''/users'', [(str ''get'', taggedOperation [''''])])]\<rparr>"

definition duplicateTagDoc :: openapi where
  "duplicateTagDoc = \<lparr>paths = Some [(str ''/users'', [(str ''get'', taggedOperation [''a'', ''a''])])]\<rparr>"



definition newlinePath :: jsstring where
  "newlinePath = str ''/a{'' @ [10] @ str ''}b/{c}d''"

section \<open>Properties\<close>

subsection \<open>The sanitizer\<close>

lemma replaceUnsafeRuns_word: "list_all isWordChar (replaceUnsafeRuns s)"
  by (induction s rule: replaceUnsafeRuns.induct) (auto simp: isWordChar_def)

lemma set_trimUnderscores: "set (trimUnderscores s) \<subseteq> set s"
  unfolding trimUnderscores_def
  by (metis set_dropWhileD set_rev subsetI)

lemma set_collapseUnderscores: "set (collapseUnderscores s) \<subseteq> set s"
  by (induction s rule: collapseUnderscores.induct)
     (auto simp: isUnderscore_def dest: set_dropWhileD)

lemma trimUnderscores_take: "\<exists>k. trimUnderscores s = take k (dropWhile isUnderscore s)"
  unfolding trimUnderscores_def
  by (metis dropWhile_eq_drop rev_drop rev_rev_ident rev_swap take_rev)

lemma trimUnderscores_first: "trimUnderscores s = c # t \<Longrightarrow> \<not> isUnderscore c"
proof -
  assume a: "trimUnderscores s = c # t"
  obtain k where "trimUnderscores s = take k (dropWhile isUnderscore s)"
    using trimUnderscores_take by blast
  with a have tk: "take k (dropWhile isUnderscore s) = c # t" by simp
  then obtain d ds where d: "dropWhile isUnderscore s = d # ds"
    by (cases "dropWhile isUnderscore s") auto
  with tk have "c = d" by (cases k) auto
  with d show ?thesis
    by (metis hd_dropWhile list.distinct(1) list.sel(1))
qed

lemma trimUnderscores_last: "trimUnderscores s = t @ [c] \<Longrightarrow> \<not> isUnderscore c"
proof -
  assume a: "trimUnderscores s = t @ [c]"
  then have "dropWhile isUnderscore (rev (dropWhile isUnderscore s)) = c # rev t"
    unfolding trimUnderscores_def by (metis rev.simps(2) rev_rev_ident rev_swap rev_append append_Nil rev.simps(1))
  then show ?thesis
    by (metis hd_dropWhile list.distinct(1) list.sel(1))
qed

lemma collapseUnderscores_Nil: "collapseUnderscores s = [] \<longleftrightarrow> s = []"
  by (induction s rule: collapseUnderscores.induct) auto

lemma collapseUnderscores_hd: "collapseUnderscores (c # cs) = d # ds \<Longrightarrow> d = c"
  by (cases cs) (auto simp: isUnderscore_def split: if_splits)

lemma collapseUnderscores_last:
  "s \<noteq> [] \<Longrightarrow> \<not> isUnderscore (last s) \<Longrightarrow> last (collapseUnderscores s) = last s"
proof (induction s rule: collapseUnderscores.induct)
  case 1
  then show ?case by simp
next
  case (2 c)
  then show ?case by simp
next
  case (3 c d cs)
  show ?case
  proof (cases "isUnderscore c \<and> isUnderscore d")
    case True
    let ?w = "dropWhile isUnderscore cs"
    have ne: "?w \<noteq> []"
      using 3(3,4) True by (auto simp: dropWhile_eq_Nil_conv split: if_splits)
    then have l: "last ?w = last cs"
      by (metis last_appendR takeWhile_dropWhile_id)
    from ne have cs: "cs \<noteq> []" by auto
    have eq: "collapseUnderscores (c # d # cs) = 95 # collapseUnderscores ?w"
      using True by simp
    have "collapseUnderscores ?w \<noteq> []"
      using ne collapseUnderscores_Nil by blast
    with eq have "last (collapseUnderscores (c # d # cs)) = last (collapseUnderscores ?w)"
      by simp
    also have "\<dots> = last ?w"
      using 3(1) [OF True ne] 3(4) l cs by simp
    finally show ?thesis using l cs by simp
  next
    case False
    have eq: "collapseUnderscores (c # d # cs) = c # collapseUnderscores (d # cs)"
      using False by auto
    have ne: "collapseUnderscores (d # cs) \<noteq> []"
      using collapseUnderscores_Nil by blast
    have "\<not> isUnderscore (last (d # cs))" using 3(4) by simp
    then have "last (collapseUnderscores (d # cs)) = last (d # cs)"
      using 3(2) [OF False] by blast
    with eq ne show ?thesis by simp
  qed
qed

lemma hasDouble_append: "hasDouble (u @ 95 # 95 # v)"
  by (induction u rule: hasDouble.induct) (auto simp: isUnderscore_def)

lemma collapseUnderscores_noDouble: "\<not> hasDouble (collapseUnderscores s)"
proof (induction s rule: collapseUnderscores.induct)
  case 1
  then show ?case by simp
next
  case (2 c)
  then show ?case by simp
next
  case (3 c d cs)
  show ?case
  proof (cases "isUnderscore c \<and> isUnderscore d")
    case True
    show ?thesis
    proof (cases "dropWhile isUnderscore cs")
      case Nil
      with True show ?thesis by (simp del: dropWhile_eq_Nil_conv)
    next
      case (Cons e es)
      then have e: "\<not> isUnderscore e"
        by (metis hd_dropWhile list.distinct(1) list.sel(1))
      obtain f fs where f: "collapseUnderscores (e # es) = f # fs"
        by (cases "collapseUnderscores (e # es)") (auto simp: collapseUnderscores_Nil)
      then have "f = e" by (rule collapseUnderscores_hd)
      with 3(1) True Cons e f show ?thesis by (simp del: dropWhile_eq_Nil_conv)
    qed
  next
    case False
    obtain f fs where f: "collapseUnderscores (d # cs) = f # fs"
      by (cases "collapseUnderscores (d # cs)") (auto simp: collapseUnderscores_Nil)
    then have "f = d" by (rule collapseUnderscores_hd)
    with 3(2) False f show ?thesis by auto
  qed
qed

lemma toSafeName_wordChars: "list_all isWordChar (toSafeName s)"
proof -
  have "set (toSafeName s) \<subseteq> set (replaceUnsafeRuns s)"
    unfolding toSafeName_def using set_collapseUnderscores set_trimUnderscores by blast
  then show ?thesis
    using replaceUnsafeRuns_word [of s] by (auto simp: list_all_iff)
qed

text \<open>
  Claim C5. For every string, of any code units, \<open>toSafeName\<close> returns a string (the
  function is total: it has no failing case) whose units all lie in \<open>[A-Za-z0-9_]\<close>,
  which neither starts nor ends with an underscore and has no two underscores in a row.
\<close>

theorem toSafeName_safe:
  "list_all isWordChar (toSafeName s)
   \<and> (\<forall>t. toSafeName s \<noteq> 95 # t)
   \<and> (\<forall>t. toSafeName s \<noteq> t @ [95])
   \<and> (\<forall>u v. toSafeName s \<noteq> u @ 95 # 95 # v)"
proof -
  let ?t = "trimUnderscores (replaceUnsafeRuns s)"
  have a: "list_all isWordChar (toSafeName s)"
    by (rule toSafeName_wordChars)
  have b: "toSafeName s \<noteq> 95 # t" for t
  proof
    assume h: "toSafeName s = 95 # t"
    then obtain c cs where c: "?t = c # cs"
      unfolding toSafeName_def by (cases ?t) auto
    with h have "c = 95" unfolding toSafeName_def using collapseUnderscores_hd by metis
    with c show False using trimUnderscores_first by (auto simp: isUnderscore_def)
  qed
  have c: "toSafeName s \<noteq> t @ [95]" for t
  proof
    assume h: "toSafeName s = t @ [95]"
    then have ne: "?t \<noteq> []" unfolding toSafeName_def by auto
    then have "?t = butlast ?t @ [last ?t]" by simp
    then have nl: "\<not> isUnderscore (last ?t)" by (rule trimUnderscores_last)
    with ne have "last (toSafeName s) = last ?t"
      unfolding toSafeName_def by (rule collapseUnderscores_last)
    with h nl show False by (simp add: isUnderscore_def)
  qed
  have d: "toSafeName s \<noteq> u @ 95 # 95 # v" for u v
    using collapseUnderscores_noDouble [of ?t] hasDouble_append [of u v]
    unfolding toSafeName_def by auto
  from a b c d show ?thesis by blast
qed

text \<open>
  The theorem at a string with blanks, underscores and runs of other units; next to it
  the empty string, a string of units outside the class only, and one outside ASCII
  (an accented letter, the euro sign and a surrogate pair).
\<close>

theorem toSafeName_safe_witness:
  "toSafeName (str ''  a__b!!c_  '') = str ''a_b_c'' \<and> toSafeName [] = [] \<and> toSafeName (str ''!?'') = []
   \<and> toSafeName [233, 8364, 55357, 56832] = []
   \<and> list_all isWordChar (toSafeName (str ''  a__b!!c_  ''))"
  using toSafeName_safe [of "str ''  a__b!!c_  ''"]
  by (simp add: toSafeName_def trimUnderscores_def str_def isWordChar_def isUnderscore_def)

subsection \<open>The function name\<close>

lemma join_Nil_iff: "list_all nonEmpty xs \<Longrightarrow> join sep xs = [] \<longleftrightarrow> xs = []"
  by (induction sep xs rule: join.induct) (auto simp: nonEmpty_def)

lemma pathFunctionName_example:
  "pathFunctionName (str ''/users/{id}/orders/{orderId}'') (str ''get'') = str ''get_users_orders''"
  by (simp add: pathFunctionName_def toSafeName_def trimUnderscores_def str_def isWordChar_def
      isUnderscore_def nonEmpty_def isLineTerminator_def)

lemma splitSlash_nonempty: "splitSlash s \<noteq> []"
  by (induction s) (auto split: list.splits)

lemma splitFrom_splitSlash:
  "splitFrom piece s = (piece @ hd (splitSlash s)) # tl (splitSlash s)"
proof (induction s arbitrary: piece)
  case Nil
  then show ?case by simp
next
  case (Cons c s)
  obtain p ps where p: "splitSlash s = p # ps"
    using splitSlash_nonempty [of s] by (cases "splitSlash s") auto
  with Cons show ?case by simp
qed

lemma splitSlash_spec: "splitSlash s = spec_split s"
  using splitSlash_nonempty [of s] by (simp add: spec_split_def splitFrom_splitSlash)

lemma closeIndex_Some_iff:
  "closeIndex cs = Some n \<longleftrightarrow>
     closes isLineTerminator cs \<and> n = length (takeWhile (\<lambda>c. c \<noteq> 125) cs)"
  by (induction cs arbitrary: n) (auto simp: closes_def)

lemma closeIndex_None_iff: "closeIndex cs = None \<longleftrightarrow> \<not> closes isLineTerminator cs"
  using closeIndex_Some_iff [of cs] by (cases "closeIndex cs") auto

lemma skipPlaceholder_drop:
  "125 \<in> set cs \<Longrightarrow>
     skipPlaceholder barred cs
       = spec_deletePlaceholders barred (drop (Suc (length (takeWhile (\<lambda>c. c \<noteq> 125) cs))) cs)"
  by (induction cs) auto

lemma stripPlaceholders_spec: "stripPlaceholders s = spec_deletePlaceholders isLineTerminator s"
proof (induction s rule: stripPlaceholders.induct)
  case 1
  then show ?case by simp
next
  case (2 c cs)
  show ?case
  proof (cases "c = 123")
    case False
    with 2 show ?thesis by simp
  next
    case True
    show ?thesis
    proof (cases "closeIndex cs")
      case None
      then have "\<not> closes isLineTerminator cs" by (simp add: closeIndex_None_iff)
      with 2(1) [OF True None] True None show ?thesis by simp
    next
      case (Some n)
      then have c: "closes isLineTerminator cs" and n: "n = length (takeWhile (\<lambda>c. c \<noteq> 125) cs)"
        by (simp_all add: closeIndex_Some_iff)
      from c have "125 \<in> set cs" by (simp add: closes_def)
      then have "skipPlaceholder isLineTerminator cs
          = spec_deletePlaceholders isLineTerminator (drop (Suc n) cs)"
        unfolding n by (rule skipPlaceholder_drop)
      with 2(2) [OF True Some] True Some c show ?thesis by simp
    qed
  qed
qed

lemma join_spec: "join sep parts = spec_join sep parts"
  by (induction sep parts rule: join.induct) (simp_all add: spec_join_def)

lemma spec_replaceRuns_eq:
  "spec_replaceRuns False s = replaceUnsafeRuns s
   \<and> spec_replaceRuns True s = replaceUnsafeRuns (dropWhile (\<lambda>d. \<not> isWordChar d) s)"
  by (induction s) auto

lemma replaceUnsafeRuns_spec: "replaceUnsafeRuns s = spec_replaceRuns False s"
  by (simp add: spec_replaceRuns_eq)

lemma stripTrailing_eq:
  "foldr (\<lambda>c kept. if c = 95 \<and> kept = [] then [] else c # kept) s []
     = rev (dropWhile isUnderscore (rev s))"
proof (induction s)
  case Nil
  then show ?case by simp
next
  case (Cons c s)
  show ?case
  proof (cases "\<forall>x \<in> set s. isUnderscore x")
    case True
    then have "dropWhile isUnderscore (rev s) = []" by simp
    with Cons True show ?thesis
      by (simp add: dropWhile_append isUnderscore_def)
  next
    case False
    then have "dropWhile isUnderscore (rev s) \<noteq> []" by simp
    with Cons False show ?thesis
      by (auto simp: dropWhile_append)
  qed
qed

lemma trimUnderscores_spec: "trimUnderscores s = spec_strip s"
proof -
  have "isUnderscore = (\<lambda>c. c = 95)" by (simp add: fun_eq_iff isUnderscore_def)
  then show ?thesis
    by (simp add: trimUnderscores_def spec_strip_def stripTrailing_eq)
qed

lemma collapseUnderscores_run:
  "isUnderscore d \<Longrightarrow> collapseUnderscores (d # cs) = 95 # collapseUnderscores (dropWhile isUnderscore cs)"
  by (cases cs) (auto simp: isUnderscore_def)

lemma collapseUnderscores_spec: "collapseUnderscores s = spec_collapse s"
proof (induction s rule: spec_collapse.induct)
  case 1
  then show ?case by simp
next
  case (2 c)
  then show ?case by simp
next
  case (3 c d cs)
  show ?case
  proof (cases "c = 95 \<and> d = 95")
    case True
    then have "collapseUnderscores (c # d # cs) = 95 # collapseUnderscores (dropWhile isUnderscore cs)"
      by (simp add: isUnderscore_def)
    also have "\<dots> = collapseUnderscores (d # cs)"
      using True by (simp add: collapseUnderscores_run isUnderscore_def)
    finally show ?thesis using 3 True by simp
  next
    case False
    then have "collapseUnderscores (c # d # cs) = c # collapseUnderscores (d # cs)"
      by (auto simp: isUnderscore_def)
    with 3 False show ?thesis by auto
  qed
qed

lemma toSafeName_spec: "toSafeName s = spec_toIdentifier s"
  by (simp add: toSafeName_def spec_toIdentifier_def replaceUnsafeRuns_spec [symmetric]
      trimUnderscores_spec [symmetric] collapseUnderscores_spec [symmetric])

lemma pathFunctionName_refines:
  "pathFunctionName p m = spec_functionName isLineTerminator p m"
proof -
  let ?sv = "filter nonEmpty (map stripPlaceholders (filter nonEmpty (splitSlash p)))"
  have n: "nonEmpty = (\<lambda>s. s \<noteq> [])" by (simp add: fun_eq_iff nonEmpty_def)
  have s: "stripPlaceholders = spec_deletePlaceholders isLineTerminator"
    by (simp add: fun_eq_iff stripPlaceholders_spec)
  have "list_all nonEmpty ?sv" by (simp add: list_all_iff)
  then have j: "join (str ''_'') ?sv = [] \<longleftrightarrow> ?sv = []" by (rule join_Nil_iff)
  have "pathFunctionName p m
          = toSafeName (if ?sv = [] then m @ str ''_root'' else m @ str ''_'' @ join (str ''_'') ?sv)"
    using j by (simp add: pathFunctionName_def Let_def nonEmpty_def str_def)
  then show ?thesis
    by (simp add: spec_functionName_def Let_def n s splitSlash_spec join_spec toSafeName_spec)
qed

lemma closes_unbarred:
  assumes "\<forall>c \<in> set cs. \<not> barred c"
  shows "closes barred cs \<longleftrightarrow> closes (\<lambda>c. False) cs"
proof -
  have "set (takeWhile (\<lambda>c. c \<noteq> 125) cs) \<subseteq> set cs"
    by (auto dest: set_takeWhileD)
  with assms have "\<not> list_ex barred (takeWhile (\<lambda>c. c \<noteq> 125) cs)"
    unfolding list_ex_iff by blast
  moreover have "\<not> list_ex (\<lambda>c. False) (takeWhile (\<lambda>c. c \<noteq> 125) cs)"
    by (simp add: list_ex_iff)
  ultimately show ?thesis by (simp add: closes_def)
qed

lemma deletePlaceholders_unbarred:
  "\<forall>c \<in> set s. \<not> barred c \<Longrightarrow>
      spec_deletePlaceholders barred s = spec_deletePlaceholders (\<lambda>c. False) s"
  and skipPlaceholder_unbarred:
  "\<forall>c \<in> set s. \<not> barred c \<Longrightarrow>
      skipPlaceholder barred s = skipPlaceholder (\<lambda>c. False) s"
proof (induction barred s and barred s rule: spec_deletePlaceholders_skipPlaceholder.induct)
  case (1 barred)
  then show ?case by simp
next
  case (2 barred c cs)
  from 2(3) have r: "\<forall>c \<in> set cs. \<not> barred c" by simp
  then have e: "closes barred cs \<longleftrightarrow> closes (\<lambda>c. False) cs" by (rule closes_unbarred)
  show ?case
  proof (cases "c = 123 \<and> closes barred cs")
    case True
    with 2(1) r e show ?thesis by simp
  next
    case False
    with 2(2) r e show ?thesis by auto
  qed
next
  case (3 barred)
  then show ?case by simp
next
  case (4 barred c cs)
  from 4(3) have r: "\<forall>c \<in> set cs. \<not> barred c" by simp
  show ?case
  proof (cases "c = 125")
    case True
    with 4(1) r show ?thesis by simp
  next
    case False
    with 4(2) r show ?thesis by simp
  qed
qed

lemma set_splitSlash: "piece \<in> set (splitSlash s) \<Longrightarrow> set piece \<subseteq> set s"
proof (induction s arbitrary: piece)
  case Nil
  then show ?case by simp
next
  case (Cons c s)
  obtain p ps where p: "splitSlash s = p # ps"
    using splitSlash_nonempty [of s] by (cases "splitSlash s") auto
  show ?case
  proof (cases "c = 47")
    case True
    with Cons.prems have "piece = [] \<or> piece \<in> set (splitSlash s)" by simp
    with Cons.IH show ?thesis by auto
  next
    case False
    with Cons.prems p have "piece = c # p \<or> piece \<in> set ps" by simp
    moreover have "set p \<subseteq> set s" using Cons.IH [of p] p by simp
    moreover have "piece \<in> set ps \<Longrightarrow> set piece \<subseteq> set s" using Cons.IH [of piece] p by simp
    ultimately show ?thesis by auto
  qed
qed

lemma spec_functionName_unbarred:
  assumes "\<not> list_ex barred p"
  shows "spec_functionName barred p m = spec_functionName (\<lambda>c. False) p m"
proof -
  have "spec_deletePlaceholders barred piece = spec_deletePlaceholders (\<lambda>c. False) piece"
    if "piece \<in> set (filter (\<lambda>s. s \<noteq> []) (spec_split p))" for piece
  proof -
    from that have "set piece \<subseteq> set p"
      using set_splitSlash [of piece p] by (simp add: splitSlash_spec)
    with assms have "\<forall>c \<in> set piece. \<not> barred c" by (auto simp: list_ex_iff)
    then show ?thesis by (rule deletePlaceholders_unbarred)
  qed
  then have "map (spec_deletePlaceholders barred) (filter (\<lambda>s. s \<noteq> []) (spec_split p))
             = map (spec_deletePlaceholders (\<lambda>c. False)) (filter (\<lambda>s. s \<noteq> []) (spec_split p))"
    by (intro map_cong) auto
  then show ?thesis by (simp only: spec_functionName_def Let_def)
qed

text \<open>
  Claim C4, as amended. For every operation without an \<open>operationId\<close>, \<open>opFunctionName\<close>
  is the name the specification derives from the path (split on the slash, drop the
  empty segments, delete the placeholders, drop the segments left empty, join with an
  underscore behind \<open>method_\<close>, \<open>method_root\<close> when no segment survives, sanitize), where
  a brace pair that holds a line terminator is no placeholder. For a path without line
  terminators this is the name of the claim, which reads every brace pair as a
  placeholder. For \<open>/users/{id}/orders/{orderId}\<close> and \<open>get\<close> it is \<open>get_users_orders\<close>.
\<close>

theorem opFunctionName_from_path:
  "(noOperationId op \<longrightarrow> opFunctionName op p m = amended_functionName p m)
   \<and> (noOperationId op \<and> \<not> list_ex isLineTerminator p \<longrightarrow>
        opFunctionName op p m = claimed_functionName p m)
   \<and> (noOperationId op \<longrightarrow>
        opFunctionName op (str ''/users/{id}/orders/{orderId}'') (str ''get'') = str ''get_users_orders'')"
proof -
  have a: "opFunctionName op q n = amended_functionName q n" if "noOperationId op" for q n
    using that pathFunctionName_refines [of q n]
    by (auto simp: opFunctionName_def noOperationId_def nonEmpty_def amended_functionName_def
        split: option.splits)
  have b: "amended_functionName p m = claimed_functionName p m" if "\<not> list_ex isLineTerminator p"
    using spec_functionName_unbarred [OF that]
    by (simp add: amended_functionName_def claimed_functionName_def)
  have c: "opFunctionName op (str ''/users/{id}/orders/{orderId}'') (str ''get'') = str ''get_users_orders''"
    if "noOperationId op"
    using that pathFunctionName_example
    by (auto simp: opFunctionName_def noOperationId_def nonEmpty_def split: option.splits)
  from a b c show ?thesis by simp
qed

lemma newlinePath_names:
  "pathFunctionName newlinePath (str ''get'') = str ''get_a_b_d''
   \<and> claimed_functionName newlinePath (str ''get'') = str ''get_ab_d''"
  by (simp add: pathFunctionName_def claimed_functionName_def spec_functionName_def Let_def
      newlinePath_def spec_split_def closes_def spec_join_def spec_toIdentifier_def spec_strip_def
      toSafeName_def trimUnderscores_def str_def isWordChar_def isUnderscore_def nonEmpty_def
      isLineTerminator_def)

text \<open>
  The theorem at a path with a line feed between braces and at the path of the example.
\<close>

theorem opFunctionName_from_path_witness:
  "noOperationId bareOperation
   \<and> opFunctionName bareOperation newlinePath (str ''get'') = str ''get_a_b_d''
   \<and> amended_functionName newlinePath (str ''get'') = str ''get_a_b_d''
   \<and> \<not> list_ex isLineTerminator (str ''/users/{id}/orders/{orderId}'')
   \<and> claimed_functionName (str ''/users/{id}/orders/{orderId}'') (str ''get'') = str ''get_users_orders''"
proof -
  have n: "noOperationId bareOperation"
    by (simp add: noOperationId_def bareOperation_def)
  have e: "opFunctionName bareOperation newlinePath (str ''get'') = str ''get_a_b_d''"
    using newlinePath_names by (simp add: opFunctionName_def bareOperation_def)
  have l: "\<not> list_ex isLineTerminator (str ''/users/{id}/orders/{orderId}'')"
    by (simp add: isLineTerminator_def str_def)
  show ?thesis
    using opFunctionName_from_path [of bareOperation newlinePath "str ''get''"]
      opFunctionName_from_path [of bareOperation "str ''/users/{id}/orders/{orderId}''" "str ''get''"]
      n e l
    by auto
qed

text \<open>
  The claim as it stands fails at the path \<open>/a{\<close>, line feed, \<open>}b/{c}d\<close>: the code keeps
  the first brace pair, which sanitizing turns into an underscore.
\<close>

theorem opFunctionName_from_path_counterexample:
  "opFunctionName bareOperation newlinePath (str ''get'') = str ''get_a_b_d''
   \<and> claimed_functionName newlinePath (str ''get'') = str ''get_ab_d''
   \<and> str ''get_a_b_d'' \<noteq> str ''get_ab_d''"
  using newlinePath_names by (simp add: opFunctionName_def bareOperation_def str_def)

lemma replaceUnsafeRuns_append:
  "list_all isWordChar m \<Longrightarrow> replaceUnsafeRuns (m @ r) = m @ replaceUnsafeRuns r"
  by (induction m) auto

lemma trimUnderscores_append:
  assumes "m \<noteq> []" "\<not> isUnderscore (hd m)" "\<not> isUnderscore (last m)"
  shows "trimUnderscores (m @ r) = m @ rev (dropWhile isUnderscore (rev r))"
proof -
  from assms(1,2) have a: "dropWhile isUnderscore (m @ r) = m @ r"
    by (cases m) auto
  from assms(1,3) have b: "dropWhile isUnderscore (rev m) = rev m"
    by (cases m rule: rev_cases) auto
  show ?thesis
    unfolding trimUnderscores_def a
    by (simp add: dropWhile_append b)
qed

lemma collapseUnderscores_append:
  "\<forall>c \<in> set m. \<not> isUnderscore c \<Longrightarrow> collapseUnderscores (m @ r) = m @ collapseUnderscores r"
proof (induction m)
  case Nil
  then show ?case by simp
next
  case (Cons c m)
  then show ?case by (cases "m @ r") auto
qed

lemma toSafeName_prefix:
  assumes "m \<noteq> []" "\<forall>c \<in> set m. 97 \<le> c \<and> c \<le> 122"
  shows "\<exists>t. toSafeName (m @ r) = m @ t"
proof -
  from assms(2) have w: "list_all isWordChar m" and u: "\<forall>c \<in> set m. \<not> isUnderscore c"
    by (auto simp: list_all_iff isWordChar_def isUnderscore_def)
  from assms(1) u have "\<not> isUnderscore (hd m)" "\<not> isUnderscore (last m)" by auto
  then show ?thesis
    using assms(1) u
    by (simp add: toSafeName_def replaceUnsafeRuns_append [OF w] trimUnderscores_append
        collapseUnderscores_append)
qed

lemma httpMethods_letters:
  "m \<in> set httpMethods \<Longrightarrow> m \<noteq> [] \<and> (\<forall>c \<in> set m. 97 \<le> c \<and> c \<le> 122) \<and> hd m \<noteq> 99"
  by (auto simp: httpMethods_def str_def)

lemma pathFunctionName_prefix:
  assumes "m \<in> set httpMethods"
  shows "\<exists>t. pathFunctionName p m = m @ t"
proof -
  from httpMethods_letters [OF assms] have "m \<noteq> []" "\<forall>c \<in> set m. 97 \<le> c \<and> c \<le> 122"
    by auto
  then show ?thesis
    using toSafeName_prefix by (simp add: pathFunctionName_def Let_def)
qed

text \<open>
  Claim C2, as amended. For every operation without an \<open>operationId\<close> under one of the
  seven method keys, whatever the path, \<open>opFunctionName\<close> returns a string over
  \<open>[A-Za-z0-9_]\<close> that begins with the method key: it is not empty, starts with a
  lower-case letter and is not \<open>constructor\<close>. For an operation with an \<open>operationId\<close>
  it returns the sanitized \<open>operationId\<close>, a string over \<open>[A-Za-z0-9_]\<close>, and nothing
  more is promised of it.
\<close>

theorem opFunctionName_shape:
  "(noOperationId op \<and> m \<in> set httpMethods \<longrightarrow>
      (\<exists>t. opFunctionName op p m = m @ t)
      \<and> (\<exists>c t. opFunctionName op p m = c # t \<and> 97 \<le> c \<and> c \<le> 122)
      \<and> list_all isWordChar (opFunctionName op p m)
      \<and> opFunctionName op p m \<noteq> str ''constructor'')
   \<and> (\<not> noOperationId op \<longrightarrow>
        (\<exists>i. operationId op = Some i \<and> i \<noteq> [] \<and> opFunctionName op p m = toSafeName i)
        \<and> list_all isWordChar (opFunctionName op p m))"
proof -
  have a: "(\<exists>t. opFunctionName op p m = m @ t)
      \<and> (\<exists>c t. opFunctionName op p m = c # t \<and> 97 \<le> c \<and> c \<le> 122)
      \<and> list_all isWordChar (opFunctionName op p m)
      \<and> opFunctionName op p m \<noteq> str ''constructor''"
    if n: "noOperationId op" and m: "m \<in> set httpMethods"
  proof -
    from n have e: "opFunctionName op p m = pathFunctionName p m"
      by (auto simp: opFunctionName_def noOperationId_def nonEmpty_def split: option.splits)
    obtain t where t: "pathFunctionName p m = m @ t"
      using pathFunctionName_prefix [OF m] by blast
    from httpMethods_letters [OF m] obtain c r where
      c: "m = c # r" "97 \<le> c" "c \<le> 122" "c \<noteq> 99"
      by (cases m) auto
    have w: "list_all isWordChar (pathFunctionName p m)"
      by (simp add: pathFunctionName_def Let_def toSafeName_wordChars)
    from t c have "pathFunctionName p m \<noteq> str ''constructor''"
      by (auto simp: str_def)
    with e t c w show ?thesis by auto
  qed
  have b: "(\<exists>i. operationId op = Some i \<and> i \<noteq> [] \<and> opFunctionName op p m = toSafeName i)
        \<and> list_all isWordChar (opFunctionName op p m)"
    if "\<not> noOperationId op"
    using that toSafeName_wordChars
    by (auto simp: opFunctionName_def noOperationId_def nonEmpty_def split: option.splits)
  from a b show ?thesis by blast
qed

theorem opFunctionName_shape_witness:
  "noOperationId bareOperation \<and> str ''get'' \<in> set httpMethods
   \<and> opFunctionName bareOperation (str ''/'') (str ''get'') = str ''get_root''
   \<and> list_all isWordChar (opFunctionName bareOperation (str ''/'') (str ''get''))
   \<and> \<not> noOperationId (bareOperation\<lparr>operationId := Some (str ''list users'')\<rparr>)
   \<and> opFunctionName (bareOperation\<lparr>operationId := Some (str ''list users'')\<rparr>) (str ''/'') (str ''get'') = str ''list_users''"
  using opFunctionName_shape [of bareOperation "str ''get''" "str ''/''"]
    opFunctionName_shape [of "bareOperation\<lparr>operationId := Some (str ''list users'')\<rparr>" "str ''get''" "str ''/''"]
  by (simp add: bareOperation_def noOperationId_def httpMethods_def opFunctionName_def pathFunctionName_def
      toSafeName_def trimUnderscores_def str_def isWordChar_def isUnderscore_def nonEmpty_def)

text \<open>
  The claim as it stands fails: the \<open>operationId\<close> \<open>!!!\<close> gives the empty name and
  \<open>2fa\<close> a name that starts with a digit; so does a method key \<open>1\<close>, which the indexer
  never passes.
\<close>

theorem opFunctionName_shape_counterexample:
  "opFunctionName (bareOperation\<lparr>operationId := Some (str ''!!!'')\<rparr>) (str ''/users'') (str ''get'') = []
   \<and> opFunctionName (bareOperation\<lparr>operationId := Some (str ''2fa'')\<rparr>) (str ''/users'') (str ''get'') = str ''2fa''
   \<and> opFunctionName bareOperation (str ''/'') (str ''1'') = str ''1_root''"
  by (simp add: bareOperation_def opFunctionName_def pathFunctionName_def
      toSafeName_def trimUnderscores_def str_def isWordChar_def isUnderscore_def nonEmpty_def)

subsection \<open>The parameter names\<close>











subsection \<open>The indexer\<close>

lemma indexKey_pairs: "indexKey pk byTag kv = foldl pushPair byTag (tagPairsOfKey pk kv)"
  by (cases kv) (simp add: indexKey_def tagPairsOfKey_def pushPair_def foldl_map)

lemma foldl_indexKey: "foldl (indexKey pk) byTag item = foldl pushPair byTag (tagPairsOfPath (pk, item))"
  by (induction item arbitrary: byTag) (simp_all add: tagPairsOfPath_def indexKey_pairs)

lemma foldl_paths:
  "foldl (\<lambda>byTag (pathKey', item). foldl (indexKey pathKey') byTag item) byTag ps
     = foldl pushPair byTag (concat (map tagPairsOfPath ps))"
  by (induction ps arbitrary: byTag) (auto simp: foldl_indexKey)

lemma groupOperationsByTag_pairs: "groupOperationsByTag doc = foldl pushPair [] (tagPairs doc)"
  by (simp add: groupOperationsByTag_def tagPairs_def foldl_paths)

lemma pair_in_fst: "(a, b) \<in> set xs \<Longrightarrow> a \<in> fst ` set xs"
  by force

lemma keys_pushEntry:
  "map fst (pushEntry byTag t e) = (if t \<in> fst ` set byTag then map fst byTag else map fst byTag @ [t])"
  by (induction byTag) (auto dest: pair_in_fst)

lemma keys_pushEntry_set: "fst ` set (pushEntry byTag t e) = insert t (fst ` set byTag)"
proof -
  have "set (map fst (pushEntry byTag t e)) = insert t (set (map fst byTag))"
    unfolding keys_pushEntry by auto
  then show ?thesis by simp
qed

lemma map_of_pushEntry:
  "map_of (pushEntry byTag t e) = (map_of byTag)(t \<mapsto> bucket byTag t @ [e])"
  by (induction byTag) (auto simp: bucket_def fun_eq_iff)

lemma bucket_pushEntry:
  "bucket (pushEntry byTag t e) k = (if k = t then bucket byTag t @ [e] else bucket byTag k)"
  by (simp add: bucket_def map_of_pushEntry)

lemma bucket_foldl:
  "bucket (foldl pushPair byTag ps) t = bucket byTag t @ map snd (filter (\<lambda>p. fst p = t) ps)"
  by (induction ps arbitrary: byTag) (auto simp: pushPair_def bucket_pushEntry)

lemma keys_foldl:
  "fst ` set (foldl pushPair byTag ps) = fst ` set byTag \<union> fst ` set ps"
proof (induction ps arbitrary: byTag)
  case Nil
  then show ?case by simp
next
  case (Cons p ps)
  have "fst ` set (pushEntry byTag (fst p) (snd p)) = insert (fst p) (fst ` set byTag)"
    by (rule keys_pushEntry_set)
  with Cons [of "pushPair byTag p"] show ?case by (simp add: pushPair_def)
qed



lemma bucket_group:
  "bucket (groupOperationsByTag doc) t = map snd (filter (\<lambda>p. fst p = t) (tagPairs doc))"
  by (simp add: groupOperationsByTag_pairs bucket_foldl) (simp add: bucket_def)

lemma keys_group: "fst ` set (groupOperationsByTag doc) = fst ` set (tagPairs doc)"
  by (simp add: groupOperationsByTag_pairs keys_foldl)


lemma map_of_group:
  "t \<in> fst ` set (tagPairs doc) \<Longrightarrow>
     map_of (groupOperationsByTag doc) t = Some (bucket (groupOperationsByTag doc) t)"
proof -
  assume "t \<in> fst ` set (tagPairs doc)"
  then have "t \<in> fst ` set (groupOperationsByTag doc)"
    using keys_group [of doc] by simp
  then obtain es where "map_of (groupOperationsByTag doc) t = Some es"
    by (metis domD dom_map_of_conv_image_fst)
  then show ?thesis by (simp add: bucket_def)
qed

lemma pickTags_nonempty: "pickTags op \<noteq> []"
  by (simp add: pickTags_def split: option.splits)

lemma tagPairs_member:
  assumes "paths doc = Some ps" "(pk, item) \<in> set ps" "(m, op) \<in> set item"
    "m \<in> set httpMethods" "t \<in> set (pickTags op)"
  shows "(t, indexed op pk m) \<in> set (tagPairs doc)"
proof -
  have "(t, indexed op pk m) \<in> set (tagPairsOfKey pk (m, op))"
    using assms(4,5) by (simp add: tagPairsOfKey_def)
  then have "(t, indexed op pk m) \<in> set (tagPairsOfPath (pk, item))"
    using assms(3) by (force simp: tagPairsOfPath_def)
  then show ?thesis
    using assms(1,2) by (force simp: tagPairs_def)
qed

lemma sampleDoc_grouped:
  "groupOperationsByTag sampleDoc =
     [(str ''a'', [indexed (taggedOperation [''a'', ''b'']) (str ''/users'') (str ''get'')]),
      (str ''b'', [indexed (taggedOperation [''a'', ''b'']) (str ''/users'') (str ''get''),
                   indexed (taggedOperation [''b'']) (str ''/users'') (str ''post'')]),
      (str ''default'', [indexed (taggedOperation []) (str ''/'') (str ''get'')])]"
  by (simp add: groupOperationsByTag_def sampleDoc_def indexKey_def httpMethods_def pickTags_def
      taggedOperation_def bareOperation_def str_def)

text \<open>
  Claim C7. For every document, every operation under one of the seven method keys is
  in the group of each of its tags, and it has at least one tag: an operation whose
  \<open>tags\<close> is absent, not an array or empty is in the group \<open>default\<close>.
\<close>

theorem every_operation_grouped:
  "paths doc = Some ps \<and> (pk, item) \<in> set ps \<and> (m, op) \<in> set item \<and> m \<in> set httpMethods \<longrightarrow>
     pickTags op \<noteq> []
     \<and> (\<forall>t \<in> set (pickTags op). \<exists>es. map_of (groupOperationsByTag doc) t = Some es
                                       \<and> indexed op pk m \<in> set es)
     \<and> (tags op = None \<or> tags op = Some [] \<longrightarrow>
          (\<exists>es. map_of (groupOperationsByTag doc) (str ''default'') = Some es
                \<and> indexed op pk m \<in> set es))"
proof (intro impI, elim conjE)
  assume a: "paths doc = Some ps" "(pk, item) \<in> set ps" "(m, op) \<in> set item" "m \<in> set httpMethods"
  have b: "\<exists>es. map_of (groupOperationsByTag doc) t = Some es \<and> indexed op pk m \<in> set es"
    if "t \<in> set (pickTags op)" for t
  proof -
    have mem: "(t, indexed op pk m) \<in> set (tagPairs doc)"
      using a that by (rule tagPairs_member)
    then have "t \<in> fst ` set (tagPairs doc)" by force
    then have "map_of (groupOperationsByTag doc) t = Some (bucket (groupOperationsByTag doc) t)"
      by (rule map_of_group)
    moreover have "indexed op pk m \<in> set (bucket (groupOperationsByTag doc) t)"
      using mem by (force simp: bucket_group)
    ultimately show ?thesis by blast
  qed
  have c: "pickTags op = [str ''default'']" if "tags op = None \<or> tags op = Some []"
    using that by (auto simp: pickTags_def)
  show "pickTags op \<noteq> []
     \<and> (\<forall>t \<in> set (pickTags op). \<exists>es. map_of (groupOperationsByTag doc) t = Some es
                                       \<and> indexed op pk m \<in> set es)
     \<and> (tags op = None \<or> tags op = Some [] \<longrightarrow>
          (\<exists>es. map_of (groupOperationsByTag doc) (str ''default'') = Some es
                \<and> indexed op pk m \<in> set es))"
    using b c pickTags_nonempty by (metis list.set_intros(1))
qed

theorem every_operation_grouped_witness:
  "map_of (groupOperationsByTag sampleDoc) (str ''default'')
       = Some [indexed (taggedOperation []) (str ''/'') (str ''get'')]
   \<and> pickTags (taggedOperation []) = [str ''default'']
   \<and> indexed (taggedOperation [''b'']) (str ''/users'') (str ''post'')
        \<in> set (bucket (groupOperationsByTag sampleDoc) (str ''b''))"
proof -
  have p: "paths sampleDoc = Some (the (paths sampleDoc))"
    by (simp add: sampleDoc_def)
  have i: "(str ''/'', [(str ''get'', taggedOperation [])]) \<in> set (the (paths sampleDoc))"
    by (simp add: sampleDoc_def)
  have m: "str ''get'' \<in> set httpMethods"
    by (simp add: httpMethods_def)
  have t: "pickTags (taggedOperation []) = [str ''default'']"
    by (simp add: pickTags_def taggedOperation_def bareOperation_def)
  show ?thesis
    using every_operation_grouped [of sampleDoc "the (paths sampleDoc)" "str ''/''"
        "[(str ''get'', taggedOperation [])]" "str ''get''" "taggedOperation []"] p i m t
    by (simp add: sampleDoc_grouped bucket_def str_def)
qed

lemma replicate_filter_eq: "map (\<lambda>_. e) (filter (\<lambda>x. x = t) xs) = replicate (count_list xs t) e"
  by (induction xs) auto

lemma filter_key_other:
  "fst kv \<noteq> m \<Longrightarrow> filter (sameOp t pk m) (tagPairsOfKey pk' kv) = []"
  by (auto simp: tagPairsOfKey_def sameOp_def indexed_def filter_empty_conv)

lemma filter_key_same:
  "m \<in> set httpMethods \<Longrightarrow>
     map snd (filter (sameOp t pk m) (tagPairsOfKey pk (m, op)))
       = replicate (count_list (pickTags op) t) (indexed op pk m)"
proof -
  assume m: "m \<in> set httpMethods"
  have "filter (sameOp t pk m) (map (\<lambda>t. (t, indexed op pk m)) ts)
          = map (\<lambda>t. (t, indexed op pk m)) (filter (\<lambda>x. x = t) ts)" for ts
    by (induction ts) (auto simp: sameOp_def indexed_def)
  with m show ?thesis
    by (simp add: tagPairsOfKey_def o_def replicate_filter_eq)
qed

lemma filter_item_none:
  "m \<notin> fst ` set item \<Longrightarrow> filter (sameOp t pk m) (tagPairsOfPath (pk', item)) = []"
proof (induction item)
  case Nil
  then show ?case by (simp add: tagPairsOfPath_def)
next
  case (Cons kv item)
  then have "fst kv \<noteq> m" by auto
  then have "filter (sameOp t pk m) (tagPairsOfKey pk' kv) = []" by (rule filter_key_other)
  with Cons show ?case by (simp add: tagPairsOfPath_def)
qed

lemma filter_item:
  assumes "distinct (map fst item)" "(m, op) \<in> set item" "m \<in> set httpMethods"
  shows "map snd (filter (sameOp t pk m) (tagPairsOfPath (pk, item)))
           = replicate (count_list (pickTags op) t) (indexed op pk m)"
  using assms(1,2)
proof (induction item)
  case Nil
  then show ?case by simp
next
  case (Cons kv item)
  show ?case
  proof (cases "fst kv = m")
    case True
    with Cons.prems have kv: "kv = (m, op)"
      by (cases kv) (auto dest: pair_in_fst)
    from Cons.prems True have "m \<notin> fst ` set item" by auto
    then have "filter (sameOp t pk m) (tagPairsOfPath (pk, item)) = []"
      by (rule filter_item_none)
    then have "filter (sameOp t pk m) (concat (map (tagPairsOfKey pk) item)) = []"
      by (simp add: tagPairsOfPath_def)
    then show ?thesis
      using filter_key_same [OF assms(3), of t pk op]
      by (simp add: tagPairsOfPath_def kv del: filter_concat)
  next
    case False
    then have a: "filter (sameOp t pk m) (tagPairsOfKey pk kv) = []" by (rule filter_key_other)
    from False Cons.prems have "(m, op) \<in> set item" "distinct (map fst item)" by auto
    then have "map snd (filter (sameOp t pk m) (tagPairsOfPath (pk, item)))
           = replicate (count_list (pickTags op) t) (indexed op pk m)"
      using Cons.IH by blast
    with a show ?thesis by (simp add: tagPairsOfPath_def del: filter_concat)
  qed
qed

lemma filter_path_other:
  "fst entry \<noteq> pk \<Longrightarrow> filter (sameOp t pk m) (tagPairsOfPath entry) = []"
  by (auto simp: tagPairsOfPath_def tagPairsOfKey_def sameOp_def indexed_def filter_empty_conv)

lemma filter_paths_none:
  "pk \<notin> fst ` set ps \<Longrightarrow> filter (sameOp t pk m) (concat (map tagPairsOfPath ps)) = []"
proof (induction ps)
  case Nil
  then show ?case by simp
next
  case (Cons entry ps)
  then have "fst entry \<noteq> pk" by auto
  then have "filter (sameOp t pk m) (tagPairsOfPath entry) = []" by (rule filter_path_other)
  with Cons show ?case by (simp del: filter_concat)
qed

lemma filter_paths:
  assumes "distinct (map fst ps)" "(pk, item) \<in> set ps"
  shows "filter (sameOp t pk m) (concat (map tagPairsOfPath ps))
           = filter (sameOp t pk m) (tagPairsOfPath (pk, item))"
  using assms
proof (induction ps)
  case Nil
  then show ?case by simp
next
  case (Cons entry ps)
  show ?case
  proof (cases "fst entry = pk")
    case True
    with Cons.prems have e: "entry = (pk, item)"
      by (cases entry) (auto dest: pair_in_fst)
    from Cons.prems True have "pk \<notin> fst ` set ps" by auto
    then have "filter (sameOp t pk m) (concat (map tagPairsOfPath ps)) = []"
      by (rule filter_paths_none)
    then show ?thesis by (simp add: e del: filter_concat)
  next
    case False
    then have a: "filter (sameOp t pk m) (tagPairsOfPath entry) = []" by (rule filter_path_other)
    from False Cons.prems have "(pk, item) \<in> set ps" "distinct (map fst ps)" by auto
    then have "filter (sameOp t pk m) (concat (map tagPairsOfPath ps))
           = filter (sameOp t pk m) (tagPairsOfPath (pk, item))"
      using Cons.IH by blast
    with a show ?thesis by (simp del: filter_concat)
  qed
qed

lemma bucket_records:
  assumes "keysDistinct doc" "paths doc = Some ps" "(pk, item) \<in> set ps" "(m, op) \<in> set item"
    "m \<in> set httpMethods"
  shows "filter (\<lambda>e. pathKey e = pk \<and> method e = m) (bucket (groupOperationsByTag doc) t)
           = replicate (count_list (pickTags op) t) (indexed op pk m)"
proof -
  from assms(1,2) have d: "distinct (map fst ps)"
    and di: "list_all (\<lambda>entry. distinct (map fst (snd entry))) ps"
    by (simp_all add: keysDistinct_def)
  from di assms(3) have d': "distinct (map fst item)"
    by (auto simp: list_all_iff)
  have "sameOp t pk m = (\<lambda>p. fst p = t \<and> pathKey (snd p) = pk \<and> method (snd p) = m)"
    by (auto simp: fun_eq_iff sameOp_def)
  then have "filter (\<lambda>e. pathKey e = pk \<and> method e = m) (bucket (groupOperationsByTag doc) t)
          = map snd (filter (sameOp t pk m) (tagPairs doc))"
    by (simp add: bucket_group filter_map o_def)
  also have "\<dots> = map snd (filter (sameOp t pk m) (tagPairsOfPath (pk, item)))"
    using filter_paths [OF d assms(3)] by (simp add: tagPairs_def assms(2))
  also have "\<dots> = replicate (count_list (pickTags op) t) (indexed op pk m)"
    using d' assms(4,5) by (rule filter_item)
  finally show ?thesis .
qed

lemma count_list_distinct: "distinct xs \<Longrightarrow> x \<in> set xs \<Longrightarrow> count_list xs x = 1"
  by (induction xs) auto

text \<open>
  Claim C6, as amended. In the group of a tag \<open>t\<close>, the records of the operation at a
  path and a method are as many as \<open>t\<close> occurs among the tags of the operation, and each
  is the one entry \<open>indexed op pk m\<close>, whose \<open>fnName\<close> is computed from the operation,
  the path and the method, not from the tag. So an operation declared under N different
  tags has exactly one record in each of the N groups, the same one, with the same
  \<open>fnName\<close>, and none in any other group. The hypothesis \<open>keysDistinct\<close> holds for
  every parsed document: an object has no key twice.
\<close>

theorem fan_out:
  "keysDistinct doc \<and> paths doc = Some ps \<and> (pk, item) \<in> set ps \<and> (m, op) \<in> set item
     \<and> m \<in> set httpMethods \<longrightarrow>
     (\<forall>t. filter (\<lambda>e. pathKey e = pk \<and> method e = m) (bucket (groupOperationsByTag doc) t)
            = replicate (count_list (pickTags op) t) (indexed op pk m))
     \<and> fnName (indexed op pk m) = opFunctionName op pk m
     \<and> (distinct (pickTags op) \<longrightarrow>
          (\<forall>t \<in> set (pickTags op).
             \<exists>es. map_of (groupOperationsByTag doc) t = Some es
                  \<and> filter (\<lambda>e. pathKey e = pk \<and> method e = m) es = [indexed op pk m]))"
proof (intro impI, elim conjE)
  assume a: "keysDistinct doc" "paths doc = Some ps" "(pk, item) \<in> set ps" "(m, op) \<in> set item"
    "m \<in> set httpMethods"
  have r: "filter (\<lambda>e. pathKey e = pk \<and> method e = m) (bucket (groupOperationsByTag doc) t)
            = replicate (count_list (pickTags op) t) (indexed op pk m)" for t
    using a by (rule bucket_records)
  have f: "fnName (indexed op pk m) = opFunctionName op pk m"
    by (simp add: indexed_def)
  have o: "\<exists>es. map_of (groupOperationsByTag doc) t = Some es
                  \<and> filter (\<lambda>e. pathKey e = pk \<and> method e = m) es = [indexed op pk m]"
    if d: "distinct (pickTags op)" and t: "t \<in> set (pickTags op)" for t
  proof -
    have "(t, indexed op pk m) \<in> set (tagPairs doc)"
      using a(2,3,4,5) t by (rule tagPairs_member)
    then have "t \<in> fst ` set (tagPairs doc)" by force
    then have s: "map_of (groupOperationsByTag doc) t = Some (bucket (groupOperationsByTag doc) t)"
      by (rule map_of_group)
    have "count_list (pickTags op) t = 1"
      using d t by (rule count_list_distinct)
    with r [of t] s show ?thesis by simp
  qed
  from r f o show "(\<forall>t. filter (\<lambda>e. pathKey e = pk \<and> method e = m) (bucket (groupOperationsByTag doc) t)
            = replicate (count_list (pickTags op) t) (indexed op pk m))
     \<and> fnName (indexed op pk m) = opFunctionName op pk m
     \<and> (distinct (pickTags op) \<longrightarrow>
          (\<forall>t \<in> set (pickTags op).
             \<exists>es. map_of (groupOperationsByTag doc) t = Some es
                  \<and> filter (\<lambda>e. pathKey e = pk \<and> method e = m) es = [indexed op pk m]))"
    by blast
qed

theorem fan_out_witness:
  "keysDistinct sampleDoc
   \<and> map_of (groupOperationsByTag sampleDoc) (str ''a'')
       = Some [indexed (taggedOperation [''a'', ''b'']) (str ''/users'') (str ''get'')]
   \<and> filter (\<lambda>e. pathKey e = str ''/users'' \<and> method e = str ''get'')
        (bucket (groupOperationsByTag sampleDoc) (str ''b''))
       = [indexed (taggedOperation [''a'', ''b'']) (str ''/users'') (str ''get'')]
   \<and> fnName (indexed (taggedOperation [''a'', ''b'']) (str ''/users'') (str ''get'')) = str ''get_users''"
proof -
  have k: "keysDistinct sampleDoc"
    by (simp add: keysDistinct_def sampleDoc_def str_def)
  have p: "paths sampleDoc = Some (the (paths sampleDoc))"
    by (simp add: sampleDoc_def)
  have i: "(str ''/users'', snd (hd (the (paths sampleDoc)))) \<in> set (the (paths sampleDoc))"
    by (simp add: sampleDoc_def)
  have j: "(str ''get'', taggedOperation [''a'', ''b'']) \<in> set (snd (hd (the (paths sampleDoc))))"
    by (simp add: sampleDoc_def)
  have m: "str ''get'' \<in> set httpMethods"
    by (simp add: httpMethods_def)
  have c: "count_list (pickTags (taggedOperation [''a'', ''b''])) (str ''b'') = 1"
    by (simp add: pickTags_def taggedOperation_def bareOperation_def str_def)
  have n: "opFunctionName (taggedOperation [''a'', ''b'']) (str ''/users'') (str ''get'') = str ''get_users''"
    by (simp add: opFunctionName_def taggedOperation_def bareOperation_def pathFunctionName_def
        toSafeName_def trimUnderscores_def str_def isWordChar_def isUnderscore_def nonEmpty_def)
  show ?thesis
    using fan_out [of sampleDoc "the (paths sampleDoc)" "str ''/users''"
        "snd (hd (the (paths sampleDoc)))" "str ''get''" "taggedOperation [''a'', ''b'']"]
      k p i j m c n
    by (simp add: sampleDoc_grouped)
qed

text \<open>
  The claim as it stands fails for an operation that names a tag twice: the group of
  that tag has two records of it.
\<close>

theorem fan_out_counterexample:
  "pickTags (taggedOperation [''a'', ''a'']) = [str ''a'', str ''a'']
   \<and> groupOperationsByTag duplicateTagDoc
       = [(str ''a'', [indexed (taggedOperation [''a'', ''a'']) (str ''/users'') (str ''get''),
                      indexed (taggedOperation [''a'', ''a'']) (str ''/users'') (str ''get'')])]"
  by (simp add: groupOperationsByTag_def duplicateTagDoc_def indexKey_def httpMethods_def pickTags_def
      taggedOperation_def bareOperation_def str_def)

subsection \<open>The emitter\<close>






lemma tagClassName_Inr: "t \<noteq> [] \<Longrightarrow> \<exists>cn. tagClassName upper t = Inr cn"
  by (cases t) (simp_all add: tagClassName_def)

lemma genApiModule_Nil: "genApiModule upper [] ops = Inl TypeError"
  by (simp add: genApiModule_def moduleLines_def tagClassName_def)

lemma genApiModule_Inr: "t \<noteq> [] \<Longrightarrow> \<exists>text'. genApiModule upper t ops = Inr text'"
  by (cases t) (simp_all add: genApiModule_def moduleLines_def tagClassName_def)

lemma fails_failWith: "fails (failWith e)"
  by (simp add: fails_def failWith_def)

lemma fails_andThen_step: "fails step \<Longrightarrow> fails (andThen step next)"
  unfolding fails_def andThen_def
proof
  fix trace
  assume "\<forall>trace. \<exists>e trace'. step trace = (Inl e, trace')"
  then obtain e trace' where "step trace = (Inl e, trace')" by blast
  then show "\<exists>e trace'. (case step trace of (Inl e, trace') \<Rightarrow> (Inl e, trace')
        | (Inr x, trace') \<Rightarrow> next x trace') = (Inl e, trace')" by simp
qed

lemma fails_andThen_next: "(\<And>x. fails (next x)) \<Longrightarrow> fails (andThen step next)"
  unfolding fails_def andThen_def
proof
  fix trace
  assume n: "\<And>x. \<forall>trace. \<exists>e trace'. next x trace = (Inl e, trace')"
  obtain r trace1 where s: "step trace = (r, trace1)" by (cases "step trace")
  show "\<exists>e trace'. (case step trace of (Inl e, trace') \<Rightarrow> (Inl e, trace')
        | (Inr x, trace') \<Rightarrow> next x trace') = (Inl e, trace')"
  proof (cases r)
    case (Inl e)
    with s show ?thesis by simp
  next
    case (Inr x)
    with s n [of x] show ?thesis by simp
  qed
qed

lemma emitModules_fails:
  "[] \<in> fst ` set grouped \<Longrightarrow> fails (emitModules h outDir grouped exports)"
proof (induction grouped arbitrary: exports)
  case Nil
  then show ?case by simp
next
  case (Cons g grouped)
  obtain t ops where g: "g = (t, ops)" by (cases g)
  show ?case
  proof (cases "t = []")
    case True
    then show ?thesis by (simp add: g genApiModule_Nil fails_failWith)
  next
    case False
    then obtain text' where x: "genApiModule (upperCase h) t ops = Inr text'"
      using genApiModule_Inr by blast
    from False obtain cn where c: "tagClassName (upperCase h) t = Inr cn"
      using tagClassName_Inr by blast
    from False Cons.prems g have "[] \<in> fst ` set grouped" by auto
    then have "fails (emitModules h outDir grouped (exports @ [\<lparr>tag = t, fileName = tagFile (lowerCase h) t, className = cn\<rparr>]))"
      by (rule Cons.IH)
    then show ?thesis
      by (simp add: g x c fails_andThen_next)
  qed
qed

lemma generate_fails:
  "[] \<in> fst ` set (groupOperationsByTag doc) \<Longrightarrow> fails (generate h baseJs outDir doc)"
  unfolding generate_def
  by (intro fails_andThen_next fails_andThen_step emitModules_fails)

text \<open>
  Claim C10. The class name of the empty tag fails with a \<open>TypeError\<close>, and so does the
  module of the empty tag; for every tag that is not empty both succeed. When an
  operation under a method key of the document has the empty string among its tags, the
  run fails.
\<close>

theorem empty_tag_fails:
  "tagClassName upper [] = Inl TypeError
   \<and> genApiModule upper [] ops = Inl TypeError
   \<and> (t \<noteq> [] \<longrightarrow> (\<exists>cn. tagClassName upper t = Inr cn)
                    \<and> (\<exists>text'. genApiModule upper t ops = Inr text'))
   \<and> (paths doc = Some ps \<and> (pk, item) \<in> set ps \<and> (m, op) \<in> set item \<and> m \<in> set httpMethods
        \<and> tags op = Some ts \<and> [] \<in> set ts \<longrightarrow>
          (\<exists>e trace'. generate h baseJs outDir doc trace = (Inl e, trace')))"
proof -
  have a: "tagClassName upper [] = Inl TypeError"
    by (simp add: tagClassName_def)
  have b: "\<exists>e trace'. generate h baseJs outDir doc trace = (Inl e, trace')"
    if p: "paths doc = Some ps" "(pk, item) \<in> set ps" "(m, op) \<in> set item" "m \<in> set httpMethods"
      and ts: "tags op = Some ts" "[] \<in> set ts"
  proof -
    from ts have "[] \<in> set (pickTags op)"
      by (auto simp: pickTags_def)
    with p have "([], indexed op pk m) \<in> set (tagPairs doc)"
      by (rule tagPairs_member)
    then have "[] \<in> fst ` set (tagPairs doc)" by force
    then have "[] \<in> fst ` set (groupOperationsByTag doc)"
      by (simp add: keys_group)
    then have "fails (generate h baseJs outDir doc)"
      by (rule generate_fails)
    then show ?thesis by (simp add: fails_def)
  qed
  from a b genApiModule_Nil [of upper ops] tagClassName_Inr [of t upper]
    genApiModule_Inr [of t upper ops]
  show ?thesis by blast
qed

text \<open>
  With a file system that accepts everything, the run on such a document stops with the
  \<open>TypeError\<close> after it has written \<open>base.js\<close>.
\<close>

theorem empty_tag_fails_witness:
  "generate plainHost (str ''base'') (str ''/out'') emptyTagDoc []
     = (Inl TypeError,
        [Mkdir (str ''/out''), Mkdir (str ''/out''), WriteFile (str ''/out/base.js'') (str ''base'')])
   \<and> tagClassName (\<lambda>s. s) (str ''user-profile'') = Inr (str ''User_profile'')"
proof -
  have g: "groupOperationsByTag emptyTagDoc
             = [([], [indexed (taggedOperation ['''']) (str ''/users'') (str ''get'')])]"
    by (simp add: groupOperationsByTag_def emptyTagDoc_def indexKey_def httpMethods_def
        pickTags_def taggedOperation_def bareOperation_def str_def)
  have r: "generate plainHost (str ''base'') (str ''/out'') emptyTagDoc []
     = (Inl TypeError,
        [Mkdir (str ''/out''), Mkdir (str ''/out''), WriteFile (str ''/out/base.js'') (str ''base'')])"
    by (simp add: generate_def g andThen_def ensureDir_def writeFile_def perform_def plainHost_def
        genApiModule_Nil failWith_def str_def)
  have c: "tagClassName (\<lambda>s. s) (str ''user-profile'') = Inr (str ''User_profile'')"
    by (simp add: tagClassName_def toUpperCase_def asciiUpper_def isAscii_def toSafeName_def
        trimUnderscores_def str_def isWordChar_def isUnderscore_def)
  show ?thesis
    using empty_tag_fails [of "\<lambda>s. s" "[]" "str ''user-profile''" emptyTagDoc
        "[(str ''/users'', [(str ''get'', taggedOperation [''''])])]" "str ''/users''"
        "[(str ''get'', taggedOperation [''''])]" "str ''get''" "taggedOperation ['''']" "[[]]"
        plainHost "str ''base''" "str ''/out''" "[]"] r c
    by simp
qed
























subsection \<open>The run\<close>

lemma fetchJson_NetworkError: "httpGet h u = NetworkError \<Longrightarrow> fetchJson h u = Some (Inl FetchFailure)"
  by (subst fetchJson.simps) simp

lemma fetchJson_direct:
  "httpGet h u = Response status location body \<Longrightarrow> \<not> isRedirect status location \<Longrightarrow>
     fetchJson h u = Some (readResponse h status body)"
  by (subst fetchJson.simps) (auto simp: isRedirect_def nonEmpty_def split: option.splits)

lemma fetchJson_redirect:
  "httpGet h u = Response status (Some target) body \<Longrightarrow> isRedirect status (Some target) \<Longrightarrow>
     fetchJson h u = fetchJson h target"
  by (subst fetchJson.simps) (auto simp: isRedirect_def nonEmpty_def)

text \<open>
  Claim C3. When the download fails, the run ends with that failure and has done no
  file-system operation: no directory made, no file written. A request that fails gives
  \<open>FetchFailure\<close>, a status of 400 or more \<open>HttpStatusFailure\<close> with that status (so
  a 503 gives \<open>HttpStatusFailure 503\<close>), a body that is no JSON \<open>ParseFailure\<close>. A
  download that never ends (redirects without end) writes nothing either.
\<close>

theorem download_failure_writes_nothing:
  "(fetchJson h (specUrl argv2 envUrl) = Some (Inl e) \<longrightarrow>
      main h argv2 envUrl baseJs outDir = Some (Inl e, []))
   \<and> (fetchJson h (specUrl argv2 envUrl) = None \<longrightarrow> main h argv2 envUrl baseJs outDir = None)
   \<and> (httpGet h u = NetworkError \<longrightarrow> fetchJson h u = Some (Inl FetchFailure))
   \<and> (httpGet h u = Response status location body \<and> status \<ge> 400 \<longrightarrow>
        fetchJson h u = Some (Inl (HttpStatusFailure status)))
   \<and> (httpGet h u = Response status location body \<and> \<not> isRedirect status location
        \<and> status < 400 \<and> jsonParse h body = None \<longrightarrow>
        fetchJson h u = Some (Inl ParseFailure))
   \<and> (httpGet h (specUrl argv2 envUrl) = Response 503 location body \<longrightarrow>
        main h argv2 envUrl baseJs outDir = Some (Inl (HttpStatusFailure 503), []))"
proof -
  have a: "main h argv2 envUrl baseJs outDir = Some (Inl e, [])"
    if "fetchJson h (specUrl argv2 envUrl) = Some (Inl e)" for e
    using that by (simp add: main_def)
  have b: "main h argv2 envUrl baseJs outDir = None" if "fetchJson h (specUrl argv2 envUrl) = None"
    using that by (simp add: main_def)
  have c: "fetchJson h u = Some (Inl (HttpStatusFailure status))"
    if "httpGet h u = Response status location body" "status \<ge> 400" for u status location body
  proof -
    from that(2) have "\<not> isRedirect status location" by (simp add: isRedirect_def)
    with that(1) have "fetchJson h u = Some (readResponse h status body)"
      by (rule fetchJson_direct)
    with that(2) show ?thesis by (simp add: readResponse_def)
  qed
  have d: "fetchJson h u = Some (Inl ParseFailure)"
    if "httpGet h u = Response status location body" "\<not> isRedirect status location"
      "status < 400" "jsonParse h body = None"
  proof -
    from that(1,2) have "fetchJson h u = Some (readResponse h status body)"
      by (rule fetchJson_direct)
    with that(3,4) show ?thesis by (simp add: readResponse_def)
  qed
  have e: "main h argv2 envUrl baseJs outDir = Some (Inl (HttpStatusFailure 503), [])"
    if "httpGet h (specUrl argv2 envUrl) = Response 503 location body"
    using a c [OF that] by simp
  from a b c d e fetchJson_NetworkError [of h u] show ?thesis by blast
qed

theorem download_failure_writes_nothing_witness:
  "main plainHost None None (str ''base'') (str ''/out'') = Some (Inl (HttpStatusFailure 503), [])
   \<and> main redirectingHost None None (str ''base'') (str ''/out'') = Some (Inl ParseFailure, [])
   \<and> main redirectingHost (Some (str ''http://nowhere'')) None (str ''base'') (str ''/out'')
       = Some (Inl FetchFailure, [])"
proof -
  have p: "httpGet plainHost (specUrl None None) = Response 503 None []"
    by (simp add: plainHost_def)
  have r1: "httpGet redirectingHost DEFAULT_SPEC = Response 302 (Some (str ''http://mirror/spec'')) []"
    by (simp add: redirectingHost_def plainHost_def)
  have r2: "httpGet redirectingHost (str ''http://mirror/spec'') = Response 200 None (str ''{broken'')"
    by (simp add: redirectingHost_def plainHost_def DEFAULT_SPEC_def str_def)
  have r3: "httpGet redirectingHost (str ''http://nowhere'') = NetworkError"
    by (simp add: redirectingHost_def plainHost_def DEFAULT_SPEC_def str_def)
  have j: "jsonParse redirectingHost (str ''{broken'') = None"
    by (simp add: redirectingHost_def plainHost_def)
  have "isRedirect 302 (Some (str ''http://mirror/spec''))"
    by (simp add: isRedirect_def str_def)
  with r1 have f1: "fetchJson redirectingHost DEFAULT_SPEC = fetchJson redirectingHost (str ''http://mirror/spec'')"
    by (rule fetchJson_redirect)
  have u1: "specUrl None None = DEFAULT_SPEC"
    by (simp add: specUrl_def)
  have u2: "specUrl (Some (str ''http://nowhere'')) None = str ''http://nowhere''"
    by (simp add: specUrl_def nonEmpty_def str_def)
  have n: "\<not> isRedirect 200 None"
    by (simp add: isRedirect_def)
  show ?thesis
    using download_failure_writes_nothing [of plainHost None None "HttpStatusFailure 503"
        "str ''base''" "str ''/out''" "specUrl None None" 503 None "[]"]
      download_failure_writes_nothing [of redirectingHost None None ParseFailure
        "str ''base''" "str ''/out''" "str ''http://mirror/spec''" 200 None "str ''{broken''"]
      download_failure_writes_nothing [of redirectingHost "Some (str ''http://nowhere'')" None FetchFailure
        "str ''base''" "str ''/out''" "str ''http://nowhere''" 200 None "[]"]
      p r2 r3 j f1 u1 u2 n
    by simp
qed

end
